theory Spec2Isabelle
  imports Main "HOL-Library.AList" "HOL-Library.Char_ord" "HOL-Library.List_Lexorder"
    "HOL-Library.Sublist"
begin

section \<open>Values, dictionaries and data frames\<close>

text \<open>
  A cell of a data frame or a property of a table entity.  Only the distinctions the
  table helpers of \<^verbatim>\<open>eazure/tables.py\<close> depend on are kept: text, whole numbers, and
  the \<^verbatim>\<open>NaN\<close> that pandas puts where a record has no value for a column.
\<close>

datatype val = Str string | Num int | NaN

text \<open>
  A Python \<^verbatim>\<open>dict\<close> from column names to values (an \<^verbatim>\<open>Entity\<close> of the table SDK is a
  \<^verbatim>\<open>dict\<close> whose attributes are its items): the items in insertion order.
  \<^verbatim>\<open>d[k]\<close> is \<^term>\<open>map_of d k\<close> (\<^term>\<open>None\<close> is the \<^verbatim>\<open>KeyError\<close>),
  \<^verbatim>\<open>d[k] = v\<close> is \<^term>\<open>AList.update k v d\<close>, which replaces in place or appends,
  and \<^verbatim>\<open>k in d\<close> is \<^term>\<open>k \<in> fst ` set d\<close>.
\<close>

type_synonym entity = "(string \<times> val) list"

text \<open>
  A pandas \<^verbatim>\<open>DataFrame\<close>, column by column as pandas stores it: the number of rows
  (\<^verbatim>\<open>len(df)\<close>) and, for every column name, the values of that column from the first
  row to the last.
\<close>

record dataframe =
  n_rows :: nat
  series :: "(string \<times> val list) list"

text \<open>\<^verbatim>\<open>df[c] = values\<close>: replaces the column, or appends a new one.\<close>

definition set_column :: "string \<Rightarrow> val list \<Rightarrow> dataframe \<Rightarrow> dataframe" where
  "set_column c vs df = df\<lparr>series := AList.update c vs (series df)\<rparr>"

text \<open>\<^verbatim>\<open>df[c]\<close>; \<^term>\<open>None\<close> is the \<^verbatim>\<open>KeyError\<close> of an absent column.\<close>

definition get_column :: "string \<Rightarrow> dataframe \<Rightarrow> val list option" where
  "get_column c df = map_of (series df) c"

subsection \<open>Decimal text\<close>

definition digit_char :: "nat \<Rightarrow> char" where
  "digit_char d = char_of (48 + d)"

text \<open>\<^verbatim>\<open>str(n)\<close> for a natural number.\<close>

fun str_nat :: "nat \<Rightarrow> string" where
  "str_nat n =
     (if n < 10 then [digit_char n] else str_nat (n div 10) @ [digit_char (n mod 10)])"

declare str_nat.simps [simp del]

text \<open>\<^verbatim>\<open>str(i)\<close> for an integer.\<close>

definition str_int :: "int \<Rightarrow> string" where
  "str_int i = (if i < 0 then CHR ''-'' # str_nat (nat (- i)) else str_nat (nat i))"

text \<open>\<^verbatim>\<open>s.zfill(width)\<close>: zeros go after a leading sign.\<close>

definition zfill :: "nat \<Rightarrow> string \<Rightarrow> string" where
  "zfill width s =
     (if s \<noteq> [] \<and> (hd s = CHR ''+'' \<or> hd s = CHR ''-'')
      then hd s # replicate (width - length s) CHR ''0'' @ tl s
      else replicate (width - length s) CHR ''0'' @ s)"

text \<open>
  The element-wise operations of a pandas series that \<^verbatim>\<open>add_keys_to_df\<close> uses:
  \<^verbatim>\<open>.astype(str)\<close>, \<^verbatim>\<open>.str.zfill(width)\<close> and \<^verbatim>\<open>+\<close> on text.  The string accessor
  gives \<^verbatim>\<open>NaN\<close> on a cell that is no text, and \<^verbatim>\<open>NaN\<close> absorbs \<^verbatim>\<open>+\<close>.
\<close>

fun astype_str :: "val \<Rightarrow> val" where
  "astype_str (Str s) = Str s"
| "astype_str (Num i) = Str (str_int i)"
| "astype_str NaN = Str ''nan''"

fun str_zfill :: "nat \<Rightarrow> val \<Rightarrow> val" where
  "str_zfill width (Str s) = Str (zfill width s)"
| "str_zfill width v = NaN"

fun str_add :: "val \<Rightarrow> val \<Rightarrow> val" where
  "str_add (Str a) (Str b) = Str (a @ b)"
| "str_add a b = NaN"

subsection \<open>Key assignment\<close>

text \<open>
  \<^verbatim>\<open>add_keys_to_df(df, partition_key)\<close>.  The four column assignments of the source, in
  its order; \<^verbatim>\<open>np.arange(len(df))\<close> is the row positions \<open>0, \<dots>, len(df) - 1\<close>, and each
  right-hand side that reads a column back reads the series just assigned to it.
\<close>

definition add_keys_to_df :: "dataframe \<Rightarrow> string \<Rightarrow> dataframe" where
  "add_keys_to_df df partition_key =
     (let max_digits = length (str_nat (n_rows df));
          pk = replicate (n_rows df) (Str partition_key);
          df = set_column ''PartitionKey'' pk df;
          rk = map (\<lambda>i. Num (int i)) [0..<n_rows df];
          df = set_column ''RowKey'' rk df;
          rk = map (\<lambda>v. str_zfill max_digits (astype_str v)) rk;
          df = set_column ''RowKey'' rk df;
          rk = map2 (\<lambda>p r. str_add (str_add p (Str ''-'')) r) pk rk;
          df = set_column ''RowKey'' rk df
      in df)"

subsection \<open>Fixed-width decimal text\<close>

text \<open>
  The \<open>w\<close> low decimal digits of \<open>n\<close>, most significant first: what zero padding to
  width \<open>w\<close> produces for every \<open>n\<close> below \<open>10 ^ w\<close>.
\<close>

fun fixed_width :: "nat \<Rightarrow> nat \<Rightarrow> string" where
  "fixed_width 0 n = []"
| "fixed_width (Suc w) n = fixed_width w (n div 10) @ [digit_char (n mod 10)]"

section \<open>Data frames and records\<close>

text \<open>
  \<^verbatim>\<open>pd.DataFrame(entities)\<close> on a list of dictionaries: the columns are the keys in the
  order in which they are first seen, and a record without a column gets \<^verbatim>\<open>NaN\<close> there.
  An empty list gives the frame with no row and no column.
\<close>

definition cell :: "entity \<Rightarrow> string \<Rightarrow> val" where
  "cell e c = (case map_of e c of Some v \<Rightarrow> v | None \<Rightarrow> NaN)"

definition DataFrame :: "entity list \<Rightarrow> dataframe" where
  "DataFrame entities =
     (let columns = rev (remdups (rev (concat (map (map fst) entities))))
      in \<lparr>n_rows = length entities,
          series = map (\<lambda>c. (c, map (\<lambda>e. cell e c) entities)) columns\<rparr>)"

text \<open>
  \<^verbatim>\<open>df.to_dict("records")\<close>: one dictionary per row, with every column of the frame.
  Every series of a frame has \<^verbatim>\<open>len(df)\<close> values, so the position is in range.
\<close>

definition to_dict_records :: "dataframe \<Rightarrow> entity list" where
  "to_dict_records df = map (\<lambda>i. map (\<lambda>(c, vs). (c, vs ! i)) (series df)) [0..<n_rows df]"

section \<open>Errors and the table service\<close>

datatype error =
    KeyError string
  | NotFound
  | Conflict
  | InvalidEntity
  | BatchConstraintViolation
  | StoreUnavailable

text \<open>The operations a \<^verbatim>\<open>TableBatch\<close> collects.\<close>

datatype operation = InsertOp entity | DeleteOp val val

text \<open>The requests that change the store, as the service accepted them.\<close>

datatype event =
    CreateTable string
  | DeleteTable string
  | InsertEntity string entity
  | UpdateEntity string entity
  | CommitBatch string "operation list"

text \<open>
  Modelled from the spec: the table service, which is the Azure SDK and not code of this
  repository.  Section 6 of the specification gives its contract: existence check, table
  creation and idempotent deletion, a full scan, point insert and update (a full
  replace), and an atomic batch commit of at most 100 operations on one partition key.
  Section 3 makes the pair of \<^verbatim>\<open>PartitionKey\<close> and \<^verbatim>\<open>RowKey\<close> unique and mandatory, and
  section 7 lets any request fail because the service is unreachable.

  The store holds the rows of every table in insertion order, a clock from which it
  stamps the \<^verbatim>\<open>Timestamp\<close> it manages, the journal of the changes it accepted, and
  \<open>outage\<close>: \<^term>\<open>None\<close> when the service answers every request, \<^term>\<open>Some n\<close> when it
  answers \<open>n\<close> more requests and none after them.
\<close>

record store =
  tables :: "string \<rightharpoonup> entity list"
  clock :: nat
  journal :: "event list"
  outage :: "nat option"

type_synonym 'a io = "store \<Rightarrow> (error + 'a) \<times> store"

definition return :: "'a \<Rightarrow> 'a io" where
  "return x s = (Inr x, s)"

definition raise :: "error \<Rightarrow> 'a io" where
  "raise e s = (Inl e, s)"

text \<open>Sequencing: an exception ends the computation where it is raised.\<close>

definition and_then :: "'a io \<Rightarrow> ('a \<Rightarrow> 'b io) \<Rightarrow> 'b io" where
  "and_then m f s = (case m s of (Inl e, s') \<Rightarrow> (Inl e, s') | (Inr x, s') \<Rightarrow> f x s')"

definition lift :: "error + 'a \<Rightarrow> 'a io" where
  "lift r s = (r, s)"

text \<open>\<^verbatim>\<open>d[k]\<close> with its \<^verbatim>\<open>KeyError\<close>.\<close>

definition getitem :: "entity \<Rightarrow> string \<Rightarrow> error + val" where
  "getitem d k = (case map_of d k of None \<Rightarrow> Inl (KeyError k) | Some v \<Rightarrow> Inr v)"

definition key_of :: "entity \<Rightarrow> (val \<times> val) option" where
  "key_of e =
     (case map_of e ''PartitionKey'' of
        None \<Rightarrow> None
      | Some pk \<Rightarrow> (case map_of e ''RowKey'' of None \<Rightarrow> None | Some rk \<Rightarrow> Some (pk, rk)))"

definition stamp :: "nat \<Rightarrow> entity \<Rightarrow> entity" where
  "stamp c e = AList.update ''Timestamp'' (Num (int c)) e"

fun apply_op :: "nat \<Rightarrow> operation \<Rightarrow> entity list \<Rightarrow> error + entity list" where
  "apply_op c (InsertOp e) rows =
     (case key_of e of
        None \<Rightarrow> Inl InvalidEntity
      | Some k \<Rightarrow> if Some k \<in> set (map key_of rows) then Inl Conflict
                  else Inr (rows @ [stamp c e]))"
| "apply_op c (DeleteOp pk rk) rows =
     (if Some (pk, rk) \<in> set (map key_of rows)
      then Inr (filter (\<lambda>r. key_of r \<noteq> Some (pk, rk)) rows)
      else Inl NotFound)"

fun apply_ops :: "nat \<Rightarrow> operation list \<Rightarrow> entity list \<Rightarrow> error + entity list" where
  "apply_ops c [] rows = Inr rows"
| "apply_ops c (x # xs) rows =
     (case apply_op c x rows of Inl e \<Rightarrow> Inl e | Inr rows' \<Rightarrow> apply_ops c xs rows')"

definition apply_update :: "nat \<Rightarrow> entity \<Rightarrow> entity list \<Rightarrow> error + entity list" where
  "apply_update c e rows =
     (case key_of e of
        None \<Rightarrow> Inl InvalidEntity
      | Some k \<Rightarrow> if Some k \<in> set (map key_of rows)
                  then Inr (map (\<lambda>r. if key_of r = Some k then stamp c e else r) rows)
                  else Inl NotFound)"

fun partition_of :: "operation \<Rightarrow> val option" where
  "partition_of (InsertOp e) = map_of e ''PartitionKey''"
| "partition_of (DeleteOp pk rk) = Some pk"

definition single_partition :: "operation list \<Rightarrow> bool" where
  "single_partition ops \<longleftrightarrow> length (remdups (map partition_of ops)) \<le> 1"

text \<open>What an accepted change does to the tables and the clock.\<close>

fun effect :: "event \<Rightarrow> (string \<rightharpoonup> entity list) \<times> nat \<Rightarrow> (string \<rightharpoonup> entity list) \<times> nat" where
  "effect (CreateTable t) (tabs, c) = (tabs(t \<mapsto> []), c)"
| "effect (DeleteTable t) (tabs, c) = (tabs(t := None), c)"
| "effect (InsertEntity t e) (tabs, c) =
     (case tabs t of None \<Rightarrow> (tabs, c) | Some rows \<Rightarrow> (tabs(t \<mapsto> rows @ [stamp c e]), Suc c))"
| "effect (UpdateEntity t e) (tabs, c) =
     (case tabs t of
        None \<Rightarrow> (tabs, c)
      | Some rows \<Rightarrow>
          (case apply_update c e rows of
             Inl err \<Rightarrow> (tabs, c)
           | Inr rows' \<Rightarrow> (tabs(t \<mapsto> rows'), Suc c)))"
| "effect (CommitBatch t ops) (tabs, c) =
     (case tabs t of
        None \<Rightarrow> (tabs, c)
      | Some rows \<Rightarrow>
          (case apply_ops c ops rows of
             Inl err \<Rightarrow> (tabs, c)
           | Inr rows' \<Rightarrow> (tabs(t \<mapsto> rows'), Suc c)))"

definition perform :: "event \<Rightarrow> store \<Rightarrow> store" where
  "perform ev s =
     s\<lparr>tables := fst (effect ev (tables s, clock s)),
       clock := snd (effect ev (tables s, clock s)),
       journal := journal s @ [ev]\<rparr>"

text \<open>Every request reaches the service, or fails because the service is away.\<close>

definition request :: "'a io \<Rightarrow> 'a io" where
  "request f s =
     (case outage s of
        None \<Rightarrow> f s
      | Some n \<Rightarrow>
          (case n of
             0 \<Rightarrow> (Inl StoreUnavailable, s)
           | Suc m \<Rightarrow> f (s\<lparr>outage := Some m\<rparr>)))"

text \<open>
  The calls of \<^verbatim>\<open>TableService\<close> that the helpers make.  A call that the service refuses
  leaves the store as it was; an insert or an update is checked against the rows of the
  table, and a batch is refused as a whole when it has more than 100 operations or
  operations of more than one partition (sections 3 and 6 of the specification).
\<close>

definition svc_exists :: "string \<Rightarrow> bool io" where
  "svc_exists t = request (\<lambda>s. (Inr (t \<in> dom (tables s)), s))"

definition svc_create_table :: "string \<Rightarrow> unit io" where
  "svc_create_table t =
     request (\<lambda>s. if t \<in> dom (tables s) then (Inr (), s) else (Inr (), perform (CreateTable t) s))"

definition svc_delete_table :: "string \<Rightarrow> unit io" where
  "svc_delete_table t =
     request (\<lambda>s. if t \<in> dom (tables s) then (Inr (), perform (DeleteTable t) s) else (Inr (), s))"

definition svc_query_entities :: "string \<Rightarrow> entity list io" where
  "svc_query_entities t =
     request (\<lambda>s. case tables s t of None \<Rightarrow> (Inl NotFound, s) | Some rows \<Rightarrow> (Inr rows, s))"

definition svc_insert_entity :: "string \<Rightarrow> entity \<Rightarrow> unit io" where
  "svc_insert_entity t e =
     request (\<lambda>s.
       case tables s t of
         None \<Rightarrow> (Inl NotFound, s)
       | Some rows \<Rightarrow>
           (case apply_op (clock s) (InsertOp e) rows of
              Inl err \<Rightarrow> (Inl err, s)
            | Inr rows' \<Rightarrow> (Inr (), perform (InsertEntity t e) s)))"

definition svc_update_entity :: "string \<Rightarrow> entity \<Rightarrow> unit io" where
  "svc_update_entity t e =
     request (\<lambda>s.
       case tables s t of
         None \<Rightarrow> (Inl NotFound, s)
       | Some rows \<Rightarrow>
           (case apply_update (clock s) e rows of
              Inl err \<Rightarrow> (Inl err, s)
            | Inr rows' \<Rightarrow> (Inr (), perform (UpdateEntity t e) s)))"

definition svc_commit_batch :: "string \<Rightarrow> operation list \<Rightarrow> unit io" where
  "svc_commit_batch t ops =
     request (\<lambda>s.
       case tables s t of
         None \<Rightarrow> (Inl NotFound, s)
       | Some rows \<Rightarrow>
           if 100 < length ops \<or> \<not> single_partition ops then (Inl BatchConstraintViolation, s)
           else (case apply_ops (clock s) ops rows of
                   Inl err \<Rightarrow> (Inl err, s)
                 | Inr rows' \<Rightarrow> (Inr (), perform (CommitBatch t ops) s)))"

section \<open>The table helpers of \<^verbatim>\<open>eazure/tables.py\<close>\<close>

definition table_exists :: "string \<Rightarrow> bool io" where
  "table_exists table_name = svc_exists table_name"

text \<open>The \<^verbatim>\<open>else\<close> branch of \<^verbatim>\<open>create_table\<close> only prints.\<close>

definition create_table :: "string \<Rightarrow> unit io" where
  "create_table table_name =
     and_then (table_exists table_name) (\<lambda>ex.
       if \<not> ex then svc_create_table table_name else return ())"

definition delete_table_if_exists :: "string \<Rightarrow> unit io" where
  "delete_table_if_exists table_name =
     and_then (svc_exists table_name) (\<lambda>ex.
       if ex then svc_delete_table table_name else return ())"

text \<open>\<^verbatim>\<open>query_entities\<close> with its defaults: no filter, and a data frame as the result.\<close>

definition query_entities :: "string \<Rightarrow> dataframe io" where
  "query_entities table_name =
     and_then (svc_query_entities table_name) (\<lambda>entities. return (DataFrame entities))"

text \<open>
  The loop of \<^verbatim>\<open>delete_all_rows_batch\<close> over the scanned entities, with the batch under
  construction, \<^verbatim>\<open>current_partition_key\<close> (\<^term>\<open>None\<close> is Python's \<^verbatim>\<open>None\<close>) and
  \<^verbatim>\<open>batch_count\<close>; it returns the batch and the count the loop ends with.
\<close>

fun delete_loop ::
  "string \<Rightarrow> entity list \<Rightarrow> operation list \<Rightarrow> val option \<Rightarrow> nat \<Rightarrow> (operation list \<times> nat) io"
where
  "delete_loop table_name [] batch current_partition_key batch_count =
     return (batch, batch_count)"
| "delete_loop table_name (entity # entities) batch current_partition_key batch_count =
     and_then (lift (getitem entity ''PartitionKey'')) (\<lambda>pk.
     and_then
       (if current_partition_key \<noteq> Some pk \<or> batch_count = 100
        then and_then
               (if current_partition_key \<noteq> None then svc_commit_batch table_name batch
                else return ())
               (\<lambda>_. return ([], Some pk, 0))
        else return (batch, current_partition_key, batch_count))
       (\<lambda>(batch, current_partition_key, batch_count).
     and_then (lift (getitem entity ''RowKey'')) (\<lambda>rk.
     delete_loop table_name entities (batch @ [DeleteOp pk rk]) current_partition_key
       (batch_count + 1))))"

definition delete_all_rows_batch :: "string \<Rightarrow> unit io" where
  "delete_all_rows_batch table_name =
     and_then (svc_query_entities table_name) (\<lambda>entities.
     and_then (delete_loop table_name entities [] None 0) (\<lambda>(batch, batch_count).
       if batch_count > 0 then svc_commit_batch table_name batch else return ()))"

text \<open>
  The entity built from a row: \<^verbatim>\<open>Entity()\<close>, its \<^verbatim>\<open>PartitionKey\<close> and \<^verbatim>\<open>RowKey\<close> read
  from the row, then every item of the row set as an attribute.
\<close>

definition new_entity :: "entity \<Rightarrow> error + entity" where
  "new_entity row =
     (case getitem row ''PartitionKey'' of
        Inl e \<Rightarrow> Inl e
      | Inr pk \<Rightarrow>
          (case getitem row ''RowKey'' of
             Inl e \<Rightarrow> Inl e
           | Inr rk \<Rightarrow>
               Inr (fold (\<lambda>(key, value). AList.update key value) row
                      (AList.update ''RowKey'' rk (AList.update ''PartitionKey'' pk [])))))"

fun insert_rows :: "string \<Rightarrow> entity list \<Rightarrow> unit io" where
  "insert_rows table_name [] = return ()"
| "insert_rows table_name (row # data) =
     and_then (lift (new_entity row)) (\<lambda>entity.
     and_then (svc_insert_entity table_name entity) (\<lambda>_.
     insert_rows table_name data))"

definition write_df_to_azure_table :: "string \<Rightarrow> dataframe \<Rightarrow> bool \<Rightarrow> unit io" where
  "write_df_to_azure_table table_name df do_truncate =
     and_then (table_exists table_name) (\<lambda>ex.
     and_then (if \<not> ex then create_table table_name else return ()) (\<lambda>_.
     and_then (if do_truncate then delete_all_rows_batch table_name else return ()) (\<lambda>_.
     insert_rows table_name (to_dict_records df))))"

text \<open>
  The loop of \<^verbatim>\<open>write_df_to_azure_table_batch\<close>, with the batch under construction and
  \<^verbatim>\<open>batch_count\<close>.
\<close>

fun write_loop :: "string \<Rightarrow> entity list \<Rightarrow> operation list \<Rightarrow> nat \<Rightarrow> (operation list \<times> nat) io"
where
  "write_loop table_name [] batch batch_count = return (batch, batch_count)"
| "write_loop table_name (row # data) batch batch_count =
     and_then (lift (new_entity row)) (\<lambda>entity.
       if batch_count + 1 = 100
       then and_then (svc_commit_batch table_name (batch @ [InsertOp entity])) (\<lambda>_.
              write_loop table_name data [] 0)
       else write_loop table_name data (batch @ [InsertOp entity]) (batch_count + 1))"

definition write_df_to_azure_table_batch :: "string \<Rightarrow> dataframe \<Rightarrow> bool \<Rightarrow> unit io" where
  "write_df_to_azure_table_batch table_name df do_truncate =
     and_then (table_exists table_name) (\<lambda>ex.
     and_then (if \<not> ex then create_table table_name else return ()) (\<lambda>_.
     and_then (if do_truncate then delete_all_rows_batch table_name else return ()) (\<lambda>_.
     and_then (write_loop table_name (to_dict_records df) [] 0) (\<lambda>(batch, batch_count).
       if batch_count > 0 then svc_commit_batch table_name batch else return ()))))"

text \<open>\<^verbatim>\<open>df.drop(columns=[c], inplace=True)\<close>: a \<^verbatim>\<open>KeyError\<close> when the frame has no such column.\<close>

definition drop_column :: "string \<Rightarrow> dataframe \<Rightarrow> error + dataframe" where
  "drop_column c df =
     (if c \<in> fst ` set (series df) then Inr (df\<lparr>series := AList.delete c (series df)\<rparr>)
      else Inl (KeyError c))"

definition rename_table :: "string \<Rightarrow> string \<Rightarrow> unit io" where
  "rename_table old_name new_name =
     and_then (delete_table_if_exists new_name) (\<lambda>_.
     and_then (create_table new_name) (\<lambda>_.
     and_then (query_entities old_name) (\<lambda>entities.
     and_then (lift (drop_column ''Timestamp'' entities)) (\<lambda>entities.
     and_then (write_df_to_azure_table new_name entities True) (\<lambda>_.
     delete_table_if_exists old_name)))))"

text \<open>
  The loops of \<^verbatim>\<open>copy_column\<close> and \<^verbatim>\<open>delete_column\<close> over the scanned entities.
  \<^verbatim>\<open>old_column in entity\<close> and the read \<^verbatim>\<open>new_entity[old_column]\<close> are one lookup.
\<close>

fun copy_loop :: "string \<Rightarrow> string \<Rightarrow> string \<Rightarrow> entity list \<Rightarrow> unit io" where
  "copy_loop table_name old_column new_column [] = return ()"
| "copy_loop table_name old_column new_column (entity # entities) =
     and_then
       (case map_of entity old_column of
          Some v \<Rightarrow> svc_update_entity table_name (AList.update new_column v entity)
        | None \<Rightarrow> return ())
       (\<lambda>_. copy_loop table_name old_column new_column entities)"

definition copy_column :: "string \<Rightarrow> string \<Rightarrow> string \<Rightarrow> unit io" where
  "copy_column table_name old_column new_column =
     and_then (svc_query_entities table_name) (copy_loop table_name old_column new_column)"

fun delete_column_loop :: "string \<Rightarrow> string \<Rightarrow> entity list \<Rightarrow> unit io" where
  "delete_column_loop table_name column_name [] = return ()"
| "delete_column_loop table_name column_name (entity # entities) =
     and_then
       (if column_name \<in> fst ` set entity
        then svc_update_entity table_name (filter (\<lambda>(k, v). k \<noteq> column_name) entity)
        else return ())
       (\<lambda>_. delete_column_loop table_name column_name entities)"

definition delete_column :: "string \<Rightarrow> string \<Rightarrow> unit io" where
  "delete_column table_name column_name =
     and_then (svc_query_entities table_name) (delete_column_loop table_name column_name)"

section \<open>Notions used to state the properties\<close>

text \<open>
  The invariant of a table (section 3 of the specification): every entity has both keys,
  and no two entities of the table have the same pair.
\<close>

definition wf_table :: "entity list \<Rightarrow> bool" where
  "wf_table rows \<longleftrightarrow> distinct (map key_of rows) \<and> list_all (\<lambda>e. key_of e \<noteq> None) rows"

text \<open>The delete operations for a list of keys.\<close>

definition delete_ops :: "(val \<times> val) list \<Rightarrow> operation list" where
  "delete_ops ks = map (\<lambda>(pk, rk). DeleteOp pk rk) ks"

text \<open>The batches among the accepted changes, in the order of their commits.\<close>

fun batch_of :: "event \<Rightarrow> operation list list" where
  "batch_of (CommitBatch t ops) = [ops]"
| "batch_of ev = []"

definition batches :: "event list \<Rightarrow> operation list list" where
  "batches evs = concat (map batch_of evs)"

text \<open>
  The operation that each loop adds to its batch for one element of its input: the
  delete of the scanned entity's keys, and the insert of the entity built from the row.
  Either is the \<^verbatim>\<open>KeyError\<close> of the element that lacks a key.
\<close>

definition delete_op :: "entity \<Rightarrow> error + operation" where
  "delete_op entity =
     (case getitem entity ''PartitionKey'' of
        Inl e \<Rightarrow> Inl e
      | Inr pk \<Rightarrow>
          (case getitem entity ''RowKey'' of Inl e \<Rightarrow> Inl e | Inr rk \<Rightarrow> Inr (DeleteOp pk rk)))"

definition insert_op :: "entity \<Rightarrow> error + operation" where
  "insert_op row = (case new_entity row of Inl e \<Rightarrow> Inl e | Inr entity \<Rightarrow> Inr (InsertOp entity))"

text \<open>
  The store \<open>s'\<close> is the store \<open>s\<close> after the changes \<open>evs\<close> and nothing else: its
  journal has grown by them, and its tables and clock are what they make of those of \<open>s\<close>.
\<close>

definition advances :: "store \<Rightarrow> event list \<Rightarrow> store \<Rightarrow> bool" where
  "advances s evs s' \<longleftrightarrow>
     journal s' = journal s @ evs \<and> (tables s', clock s') = fold effect evs (tables s, clock s)"

text \<open>The changes the store accepted between \<open>s\<close> and \<open>s'\<close>.\<close>

definition since :: "store \<Rightarrow> store \<Rightarrow> event list" where
  "since s s' = drop (length (journal s)) (journal s')"

fun is_insert :: "operation \<Rightarrow> bool" where
  "is_insert (InsertOp e) = True"
| "is_insert (DeleteOp pk rk) = False"

text \<open>The entities that the accepted changes insert, by a point insert or in a batch.\<close>

fun inserts_of :: "event \<Rightarrow> entity list" where
  "inserts_of (InsertEntity t e) = [e]"
| "inserts_of (CommitBatch t ops) =
     concat (map (\<lambda>x. case x of InsertOp e \<Rightarrow> [e] | DeleteOp pk rk \<Rightarrow> []) ops)"
| "inserts_of ev = []"

definition inserted :: "event list \<Rightarrow> entity list" where
  "inserted evs = concat (map inserts_of evs)"

text \<open>
  The changes of a complete \<^verbatim>\<open>rename_table\<close>, in order, when it inserts the entities
  \<open>es\<close>: the destination is deleted if the store has it, created, filled by one insert
  for each entity, and the source is deleted.
\<close>

definition rename_script :: "store \<Rightarrow> string \<Rightarrow> string \<Rightarrow> entity list \<Rightarrow> event list" where
  "rename_script s old_name new_name es =
     (if new_name \<in> dom (tables s) then [DeleteTable new_name] else [])
     @ [CreateTable new_name] @ map (InsertEntity new_name) es @ [DeleteTable old_name]"

text \<open>
  What an entity says, as Python compares dictionaries (by their items, in any order),
  less the \<^verbatim>\<open>Timestamp\<close> that the store manages.
\<close>

definition content :: "entity \<Rightarrow> (string \<rightharpoonup> val)" where
  "content e = (map_of e)(''Timestamp'' := None)"

text \<open>
  The entities of a scan that pandas turns into a frame without filling in a cell: each
  is a dictionary (no key twice) and all have the same keys.
\<close>

definition uniform :: "entity list \<Rightarrow> bool" where
  "uniform rows \<longleftrightarrow>
     list_all (\<lambda>e. distinct (map fst e) \<and> set (map fst e) = set (map fst (hd rows))) rows"

section \<open>Concrete stores and frames\<close>

definition rows_two :: "entity list" where
  "rows_two =
     [[(''PartitionKey'', Str ''A''), (''RowKey'', Str ''1''), (''Timestamp'', Num 0)],
      [(''PartitionKey'', Str ''B''), (''RowKey'', Str ''1''), (''Timestamp'', Num 1)]]"

definition store_two :: store where
  "store_two = \<lparr>tables = [''T'' \<mapsto> rows_two], clock = 2, journal = [], outage = None\<rparr>"

definition store_empty_source :: store where
  "store_empty_source =
     \<lparr>tables = [''Old'' \<mapsto> [], ''New'' \<mapsto> rows_two], clock = 2, journal = [], outage = None\<rparr>"

definition frame_two_partitions :: dataframe where
  "frame_two_partitions =
     \<lparr>n_rows = 2,
      series = [(''PartitionKey'', [Str ''A'', Str ''B'']), (''RowKey'', [Str ''1'', Str ''2''])]\<rparr>"

definition store_none :: store where
  "store_none = \<lparr>tables = Map.empty, clock = 0, journal = [], outage = None\<rparr>"

definition frame_one_partition :: dataframe where
  "frame_one_partition =
     \<lparr>n_rows = 2,
      series = [(''PartitionKey'', [Str ''A'', Str ''A'']), (''RowKey'', [Str ''1'', Str ''2'']),
                (''Name'', [Str ''x'', Str ''y''])]\<rparr>"

definition frame_without_row_key :: dataframe where
  "frame_without_row_key =
     \<lparr>n_rows = 2, series = [(''PartitionKey'', [Str ''A'', Str ''A'']), (''Name'', [Str ''x'', Str ''y''])]\<rparr>"

text \<open>
  The common shape of the loops of \<^verbatim>\<open>copy_column\<close> and \<^verbatim>\<open>delete_column\<close>: for every
  scanned entity, the update that \<open>g\<close> gives for it, if any.  \<open>copied\<close> and \<open>without\<close>
  are the entities that the two loops send.
\<close>

fun update_each :: "string \<Rightarrow> (entity \<Rightarrow> entity option) \<Rightarrow> entity list \<Rightarrow> unit io" where
  "update_each t g [] = return ()"
| "update_each t g (e # es) =
     and_then (case g e of Some u \<Rightarrow> svc_update_entity t u | None \<Rightarrow> return ())
       (\<lambda>_. update_each t g es)"

definition copied :: "string \<Rightarrow> string \<Rightarrow> entity \<Rightarrow> entity option" where
  "copied old_column new_column e =
     (case map_of e old_column of Some v \<Rightarrow> Some (AList.update new_column v e) | None \<Rightarrow> None)"

definition without :: "string \<Rightarrow> entity \<Rightarrow> entity option" where
  "without column_name e =
     (if column_name \<in> fst ` set e then Some (filter (\<lambda>(k, v). k \<noteq> column_name) e) else None)"

definition rows_mixed :: "entity list" where
  "rows_mixed =
     [[(''PartitionKey'', Str ''A''), (''RowKey'', Str ''1''), (''Name'', Str ''x''),
       (''Timestamp'', Num 0)],
      [(''PartitionKey'', Str ''B''), (''RowKey'', Str ''1''), (''Timestamp'', Num 1)]]"

definition store_mixed :: store where
  "store_mixed = \<lparr>tables = [''T'' \<mapsto> rows_mixed], clock = 2, journal = [], outage = None\<rparr>"

text \<open>
  A source table of 150 entities with the same columns, 100 in partition \<open>A\<close> and 50 in
  partition \<open>B\<close>.
\<close>

definition entity_150 :: "string \<Rightarrow> nat \<Rightarrow> entity" where
  "entity_150 pk i =
     [(''PartitionKey'', Str pk), (''RowKey'', Str (str_nat i)), (''Timestamp'', Num 0)]"

definition rows_150 :: "entity list" where
  "rows_150 = map (entity_150 ''A'') [0..<100] @ map (entity_150 ''B'') [0..<50]"

definition store_150 :: store where
  "store_150 = \<lparr>tables = [''T'' \<mapsto> rows_150], clock = 0, journal = [], outage = None\<rparr>"

text \<open>
  The part of \<^verbatim>\<open>write_df_to_azure_table_batch\<close> after the truncation: the loop over the
  rows and the commit of the last batch.
\<close>

definition write_phase :: "string \<Rightarrow> entity list \<Rightarrow> unit io" where
  "write_phase table_name data =
     and_then (write_loop table_name data [] 0) (\<lambda>(batch, batch_count).
       if batch_count > 0 then svc_commit_batch table_name batch else return ())"

section \<open>Decimal text and zero padding\<close>

lemma of_char_digit: "d < 10 \<Longrightarrow> of_char (digit_char d) = 48 + d"
  by (simp add: digit_char_def)

lemma digit_char_less: "d < e \<Longrightarrow> e < 10 \<Longrightarrow> digit_char d < digit_char e"
  by (simp add: less_char_def of_char_digit)

lemma digit_char_zero: "digit_char 0 = CHR ''0''"
  by code_simp

lemma digit_char_not_sign:
  assumes d: "d < 10"
  shows "digit_char d \<noteq> CHR ''+'' \<and> digit_char d \<noteq> CHR ''-''"
proof -
  have "of_char (digit_char d) \<noteq> (43::nat)" "of_char (digit_char d) \<noteq> (45::nat)"
    using d by (simp_all add: of_char_digit)
  then show "digit_char d \<noteq> CHR ''+'' \<and> digit_char d \<noteq> CHR ''-''"
    by auto
qed

lemma str_nat_not_Nil: "str_nat n \<noteq> []"
  by (subst str_nat.simps) simp

lemma hd_str_nat: "\<exists>d<10. hd (str_nat n) = digit_char d"
proof (induction n rule: str_nat.induct)
  case (1 n)
  show ?case
  proof (cases "n < 10")
    case True
    then show ?thesis by (subst str_nat.simps) auto
  next
    case False
    with 1 obtain d where "d < 10" "hd (str_nat (n div 10)) = digit_char d" by auto
    with False show ?thesis
      by (subst str_nat.simps) (auto simp: str_nat_not_Nil)
  qed
qed

lemma zfill_str_nat:
  "zfill w (str_nat n) = replicate (w - length (str_nat n)) CHR ''0'' @ str_nat n"
proof -
  obtain d where "d < 10" "hd (str_nat n) = digit_char d"
    using hd_str_nat [of n] by blast
  then have "hd (str_nat n) \<noteq> CHR ''+''" "hd (str_nat n) \<noteq> CHR ''-''"
    using digit_char_not_sign [of d] by simp_all
  then show ?thesis by (simp add: zfill_def)
qed

lemma length_fixed_width: "length (fixed_width w n) = w"
  by (induction w arbitrary: n) auto

lemma fixed_width_zero: "fixed_width w 0 = replicate w CHR ''0''"
  by (induction w) (auto simp: digit_char_zero replicate_append_same)

lemma str_nat_bound: "n < 10 ^ length (str_nat n)"
proof (induction n rule: str_nat.induct)
  case (1 n)
  show ?case
  proof (cases "n < 10")
    case True
    then show ?thesis by (subst str_nat.simps) simp
  next
    case False
    with 1 have "n div 10 < 10 ^ length (str_nat (n div 10))" by blast
    then have "n < 10 * 10 ^ length (str_nat (n div 10))"
      by (simp add: div_less_iff_less_mult)
    moreover have "str_nat n = str_nat (n div 10) @ [digit_char (n mod 10)]"
      using False by (subst str_nat.simps) simp
    ultimately show ?thesis by simp
  qed
qed

lemma pad_fixed_width:
  "n < 10 ^ w \<Longrightarrow> 0 < w \<Longrightarrow>
   replicate (w - length (str_nat n)) CHR ''0'' @ str_nat n = fixed_width w n"
proof (induction w arbitrary: n)
  case 0
  then show ?case by simp
next
  case (Suc w)
  show ?case
  proof (cases "n < 10")
    case True
    then have "str_nat n = [digit_char n]" by (subst str_nat.simps) simp
    with True show ?thesis by (simp add: fixed_width_zero)
  next
    case False
    then have s: "str_nat n = str_nat (n div 10) @ [digit_char (n mod 10)]"
      by (subst str_nat.simps) simp
    from False Suc.prems have w: "0 < w" by (cases w) auto
    from Suc.prems have "n div 10 < 10 ^ w" by simp
    from Suc.IH [OF this w] show ?thesis by (simp add: s)
  qed
qed

lemma fixed_width_less: "i < j \<Longrightarrow> j < 10 ^ w \<Longrightarrow> fixed_width w i < fixed_width w j"
proof (induction w arbitrary: i j)
  case 0
  then show ?case by simp
next
  case (Suc w)
  from Suc.prems have jd: "j div 10 < 10 ^ w" by simp
  show ?case
  proof (cases "i div 10 < j div 10")
    case True
    from Suc.IH [OF True jd]
    have "(fixed_width w (i div 10), fixed_width w (j div 10)) \<in> lexord {(u, v). u < v}"
      by (simp add: list_less_def)
    then have "(fixed_width w (i div 10) @ [digit_char (i mod 10)],
                fixed_width w (j div 10) @ [digit_char (j mod 10)]) \<in> lexord {(u, v). u < v}"
      by (rule lexord_sufI) (simp add: length_fixed_width)
    then show ?thesis by (simp add: list_less_def)
  next
    case False
    with Suc.prems(1) have eq: "i div 10 = j div 10"
      using div_le_mono [of i j 10] by simp
    have m: "i mod 10 < j mod 10"
      using eq Suc.prems(1) div_mult_mod_eq [of i 10] div_mult_mod_eq [of j 10] by linarith
    have "digit_char (i mod 10) < digit_char (j mod 10)"
      using m by (intro digit_char_less) simp_all
    then have "([digit_char (i mod 10)], [digit_char (j mod 10)]) \<in> lexord {(u, v). u < v}"
      by simp
    then show ?thesis
      unfolding list_less_def fixed_width.simps eq by (rule lexord_append_leftI)
  qed
qed

lemma padded_less:
  assumes "i < j" "j < n"
  shows "p @ zfill (length (str_nat n)) (str_nat i) < p @ zfill (length (str_nat n)) (str_nat j)"
proof -
  let ?w = "length (str_nat n)"
  have w: "0 < ?w" using str_nat_not_Nil by simp
  have i: "i < 10 ^ ?w" and j: "j < 10 ^ ?w"
    using assms str_nat_bound [of n] by simp_all
  have "fixed_width ?w i < fixed_width ?w j"
    using assms(1) j by (rule fixed_width_less)
  then have "zfill ?w (str_nat i) < zfill ?w (str_nat j)"
    by (simp add: zfill_str_nat pad_fixed_width [OF i w] pad_fixed_width [OF j w])
  then show ?thesis
    unfolding list_less_def by (rule lexord_append_leftI)
qed

lemma padded_sorted:
  "sorted_wrt (<) (map (\<lambda>i. p @ zfill (length (str_nat n)) (str_nat i)) [0..<n])"
proof -
  have "sorted_wrt (\<lambda>i j. i < j \<and> j < n) [0..<n]"
    by (simp add: sorted_wrt_iff_nth_less)
  then show ?thesis
    unfolding sorted_wrt_map
    by (rule sorted_wrt_mono_rel [rotated]) (simp add: padded_less)
qed

section \<open>Key assignment\<close>

lemma get_set_column: "get_column c (set_column c vs df) = Some vs"
  by (simp add: get_column_def set_column_def update_Some_unfold)

lemma get_set_column_other: "c \<noteq> c' \<Longrightarrow> get_column c (set_column c' vs df) = get_column c df"
  by (simp add: get_column_def set_column_def update_conv')

lemma n_rows_set_column: "n_rows (set_column c vs df) = n_rows df"
  by (simp add: set_column_def)

lemma row_key_cells:
  "map2 (\<lambda>p r. str_add (str_add p (Str ''-'')) r) (replicate n (Str pk))
     (map (\<lambda>v. str_zfill w (astype_str v)) (map (\<lambda>i. Num (int i)) [0..<n]))
   = map (\<lambda>i. Str (pk @ ''-'' @ zfill w (str_nat i))) [0..<n]"
  by (rule nth_equalityI) (simp_all add: str_int_def)

text \<open>
  Claim C4.  For a data frame of \<open>N\<close> rows and a partition value \<open>P\<close>,
  \<^verbatim>\<open>add_keys_to_df\<close> leaves the number of rows alone, puts \<open>P\<close> in the
  \<^verbatim>\<open>PartitionKey\<close> cell of every row, and puts in the \<^verbatim>\<open>RowKey\<close> cell of the row at
  position \<open>i\<close> the text \<open>P\<close>, a dash, and \<open>i\<close> in decimal padded with zeros to the width
  \<^verbatim>\<open>len(str(N))\<close>.  Both columns are given as functions of \<open>N\<close> and \<open>P\<close> alone, so two
  applications to equal inputs give the same keys; and the row keys, read from the
  first row to the last, increase strictly in the lexicographic order of text.
\<close>

theorem add_keys_to_df_keys:
  "n_rows (add_keys_to_df df P) = n_rows df
   \<and> get_column ''PartitionKey'' (add_keys_to_df df P) = Some (replicate (n_rows df) (Str P))
   \<and> get_column ''RowKey'' (add_keys_to_df df P)
       = Some (map (\<lambda>i. Str (P @ ''-'' @ zfill (length (str_nat (n_rows df))) (str_nat i)))
                 [0..<n_rows df])
   \<and> sorted_wrt (<)
       (map (\<lambda>i. P @ ''-'' @ zfill (length (str_nat (n_rows df))) (str_nat i)) [0..<n_rows df])"
proof -
  let ?keys = "map (\<lambda>i. P @ ''-'' @ zfill (length (str_nat (n_rows df))) (str_nat i)) [0..<n_rows df]"
  have ne: "''PartitionKey'' \<noteq> ''RowKey''" by simp
  have n: "n_rows (add_keys_to_df df P) = n_rows df"
    unfolding add_keys_to_df_def Let_def by (simp only: n_rows_set_column)
  have pk: "get_column ''PartitionKey'' (add_keys_to_df df P) = Some (replicate (n_rows df) (Str P))"
    unfolding add_keys_to_df_def Let_def
    by (simp only: get_set_column get_set_column_other [OF ne])
  have rk: "get_column ''RowKey'' (add_keys_to_df df P)
      = Some (map (\<lambda>i. Str (P @ ''-'' @ zfill (length (str_nat (n_rows df))) (str_nat i)))
                [0..<n_rows df])"
    unfolding add_keys_to_df_def Let_def
    by (simp only: get_set_column n_rows_set_column row_key_cells)
  have "sorted_wrt (<)
       (map (\<lambda>i. (P @ ''-'') @ zfill (length (str_nat (n_rows df))) (str_nat i)) [0..<n_rows df])"
    by (rule padded_sorted)
  then have "sorted_wrt (<) ?keys" by simp
  with n pk rk show ?thesis by simp
qed

section \<open>Sequencing and the service\<close>

lemma and_then_return [simp]: "and_then (return x) f = f x"
  by (rule ext) (simp add: and_then_def return_def)

lemma and_then_raise [simp]: "and_then (raise e) f = raise e"
  by (rule ext) (simp add: and_then_def raise_def)

lemma and_then_lift_Inr [simp]: "and_then (lift (Inr x)) f = f x"
  by (rule ext) (simp add: and_then_def lift_def)

lemma and_then_lift_Inl [simp]: "and_then (lift (Inl e)) f = raise e"
  by (rule ext) (simp add: and_then_def lift_def raise_def)

lemma and_then_Inr: "m s = (Inr x, s') \<Longrightarrow> and_then m f s = f x s'"
  by (simp add: and_then_def)

lemma and_then_Inl: "m s = (Inl e, s') \<Longrightarrow> and_then m f s = (Inl e, s')"
  by (simp add: and_then_def)

lemma and_then_cases:
  assumes "and_then m f s = (r, s')"
  obtains (fail) e where "m s = (Inl e, s')" "r = Inl e"
        | (ok) x s1 where "m s = (Inr x, s1)" "f x s1 = (r, s')"
  using assms by (auto simp: and_then_def split: prod.splits sum.splits)

lemma request_up [simp]: "outage s = None \<Longrightarrow> request f s = f s"
  by (simp add: request_def)

lemma perform_fields [simp]:
  "journal (perform ev s) = journal s @ [ev]"
  "outage (perform ev s) = outage s"
  by (simp_all add: perform_def)

lemma tables_perform:
  "tables (perform (CreateTable t) s) = (tables s)(t \<mapsto> [])"
  "tables (perform (DeleteTable t) s) = (tables s)(t := None)"
  by (simp_all add: perform_def)

lemma request_cases:
  assumes "request f s = (r, s')"
  obtains (down) "outage s = Some 0" "r = Inl StoreUnavailable" "s' = s"
        | (up) "outage s = None" "f s = (r, s')"
        | (count) m where "outage s = Some (Suc m)" "f (s\<lparr>outage := Some m\<rparr>) = (r, s')"
  using assms by (auto simp: request_def split: option.splits nat.splits)

lemma tables_perform_commit:
  "tables s t = Some rows \<Longrightarrow> apply_ops (clock s) ops rows = Inr rows' \<Longrightarrow>
   tables (perform (CommitBatch t ops) s) = (tables s)(t \<mapsto> rows')"
  by (simp add: perform_def)

lemma commit_batch_ok:
  assumes "outage s = None" "tables s t = Some rows" "length ops \<le> 100" "single_partition ops"
    "apply_ops (clock s) ops rows = Inr rows'"
  shows "svc_commit_batch t ops s = (Inr (), perform (CommitBatch t ops) s)"
  using assms by (simp add: svc_commit_batch_def)

lemma remdups_all_same:
  assumes "\<forall>x\<in>set xs. x = a"
  shows "length (remdups xs) \<le> 1"
proof -
  from assms have "set xs \<subseteq> {a}" by auto
  then have "card (set xs) \<le> card {a}" by (intro card_mono) simp_all
  then show ?thesis by (simp add: length_remdups_card_conv)
qed

lemma single_partition_delete_ops:
  "\<forall>k\<in>set ks. fst k = pk \<Longrightarrow> single_partition (delete_ops ks)"
  unfolding single_partition_def delete_ops_def
  by (rule remdups_all_same [where a = "Some pk"]) (auto split: prod.splits)

lemma apply_delete_ops:
  "map key_of pending = map Some ks \<Longrightarrow> distinct (map key_of (pending @ todo)) \<Longrightarrow>
   apply_ops c (delete_ops ks) (pending @ todo) = Inr todo"
proof (induction pending arbitrary: ks)
  case Nil
  then show ?case by (simp add: delete_ops_def)
next
  case (Cons p pending)
  then obtain k ks' where ks: "ks = k # ks'" "key_of p = Some k" "map key_of pending = map Some ks'"
    by (cases ks) auto
  obtain pk rk where k: "k = (pk, rk)" by (cases k)
  from Cons.prems(2) ks have notin: "Some k \<notin> set (map key_of (pending @ todo))"
    and d: "distinct (map key_of (pending @ todo))" by auto
  from notin have "filter (\<lambda>r. key_of r \<noteq> Some k) (pending @ todo) = pending @ todo"
    by (intro filter_True) (force simp: image_iff)
  with ks k Cons.IH [OF ks(3) d] show ?case
    by (simp add: delete_ops_def)
qed

lemma wf_table_suffix: "wf_table (xs @ ys) \<Longrightarrow> wf_table ys"
  by (simp add: wf_table_def)

lemma delete_loop_ok:
  assumes "outage s = None" "tables s t = Some (pending @ todo)" "wf_table (pending @ todo)"
    "map key_of pending = map Some ks" "batch = delete_ops ks" "cnt = length ks" "cnt \<le> 100"
    "\<forall>k\<in>set ks. Some (fst k) = cur"
  shows "\<exists>ks' pending' cur' s'.
     delete_loop t todo batch cur cnt s = (Inr (delete_ops ks', length ks'), s')
     \<and> outage s' = None \<and> tables s' = (tables s)(t \<mapsto> pending')
     \<and> map key_of pending' = map Some ks' \<and> wf_table pending' \<and> length ks' \<le> 100
     \<and> (\<forall>k\<in>set ks'. Some (fst k) = cur')"
  using assms
proof (induction todo arbitrary: s pending ks batch cur cnt)
  case Nil
  have "tables s = (tables s)(t \<mapsto> pending)" using Nil.prems(2) by auto
  with Nil.prems show ?case
    by (auto simp: return_def intro!: exI [of _ ks] exI [of _ pending] exI [of _ cur])
next
  case (Cons e todo)
  from Cons.prems(3) obtain pk rk where key: "key_of e = Some (pk, rk)"
    by (auto simp: wf_table_def)
  then have pk: "getitem e ''PartitionKey'' = Inr pk" and rk: "getitem e ''RowKey'' = Inr rk"
    by (auto simp: key_of_def getitem_def split: option.splits)
  show ?case
  proof (cases "cur \<noteq> Some pk \<or> cnt = 100")
    case True
    define s1 where "s1 = (if cur \<noteq> None then perform (CommitBatch t batch) s else s)"
    have applied: "apply_ops (clock s) batch (pending @ e # todo) = Inr (e # todo)"
      using Cons.prems(3,4,5) by (simp add: apply_delete_ops wf_table_def)
    have flush: "(if cur \<noteq> None then svc_commit_batch t batch else return ()) s = (Inr (), s1)"
    proof (cases cur)
      case None
      then show ?thesis by (simp add: s1_def return_def)
    next
      case (Some c)
      have "single_partition batch"
        using Cons.prems(5,8) Some by (auto intro!: single_partition_delete_ops [where pk = c])
      with Some Cons.prems applied show ?thesis
        by (simp add: s1_def commit_batch_ok [where rows = "pending @ e # todo"] delete_ops_def)
    qed
    have t1: "tables s1 = (tables s)(t \<mapsto> [e] @ todo)"
    proof (cases cur)
      case None
      with Cons.prems(8) have "ks = []" by (cases ks) auto
      with Cons.prems(4) have "pending = []" by simp
      with None Cons.prems(2) show ?thesis by (auto simp: s1_def)
    next
      case (Some c)
      with Cons.prems(2) applied show ?thesis
        by (simp add: s1_def tables_perform_commit)
    qed
    have o1: "outage s1 = None" using Cons.prems(1) by (simp add: s1_def)
    define m where "m = (if cur \<noteq> Some pk \<or> cnt = 100
        then and_then
               (if cur \<noteq> None then svc_commit_batch t batch else return ())
               (\<lambda>_. return ([], Some pk, 0))
        else return (batch, cur, cnt))"
    have sel: "m s = (Inr ([], Some pk, 0), s1)"
      unfolding m_def using True flush by (simp add: and_then_def return_def)
    have step: "delete_loop t (e # todo) batch cur cnt s
        = delete_loop t todo (delete_ops [(pk, rk)]) (Some pk) (length [(pk, rk)]) s1"
      unfolding delete_loop.simps pk and_then_lift_Inr m_def [symmetric]
      by (simp add: and_then_Inr [of m, OF sel] rk delete_ops_def)
    have "\<exists>ks' pending' cur' s'.
       delete_loop t todo (delete_ops [(pk, rk)]) (Some pk) (length [(pk, rk)]) s1
         = (Inr (delete_ops ks', length ks'), s')
       \<and> outage s' = None \<and> tables s' = (tables s1)(t \<mapsto> pending')
       \<and> map key_of pending' = map Some ks' \<and> wf_table pending' \<and> length ks' \<le> 100
       \<and> (\<forall>k\<in>set ks'. Some (fst k) = cur')"
      using o1 t1 Cons.prems(3) key
      by (intro Cons.IH [where pending = "[e]" and ks = "[(pk, rk)]"]) (auto dest: wf_table_suffix)
    then obtain ks' pending' cur' s' where
      "delete_loop t todo (delete_ops [(pk, rk)]) (Some pk) (length [(pk, rk)]) s1
         = (Inr (delete_ops ks', length ks'), s')"
      "outage s' = None" "tables s' = (tables s1)(t \<mapsto> pending')"
      "map key_of pending' = map Some ks'" "wf_table pending'" "length ks' \<le> 100"
      "\<forall>k\<in>set ks'. Some (fst k) = cur'"
      by blast
    then show ?thesis
      unfolding step t1
      by (intro exI [of _ ks'] exI [of _ pending'] exI [of _ cur'] exI [of _ s']) simp
  next
    case False
    then have cur: "cur = Some pk" and c: "cnt < 100" using Cons.prems(7) by auto
    have step: "delete_loop t (e # todo) batch cur cnt s
        = delete_loop t todo (delete_ops (ks @ [(pk, rk)])) cur (length (ks @ [(pk, rk)])) s"
      using False pk rk Cons.prems(5,6) by (simp add: delete_ops_def)
    have "\<exists>ks' pending' cur' s'.
       delete_loop t todo (delete_ops (ks @ [(pk, rk)])) cur (length (ks @ [(pk, rk)])) s
         = (Inr (delete_ops ks', length ks'), s')
       \<and> outage s' = None \<and> tables s' = (tables s)(t \<mapsto> pending')
       \<and> map key_of pending' = map Some ks' \<and> wf_table pending' \<and> length ks' \<le> 100
       \<and> (\<forall>k\<in>set ks'. Some (fst k) = cur')"
      using Cons.prems key cur c
      by (intro Cons.IH [where pending = "pending @ [e]" and ks = "ks @ [(pk, rk)]"]) auto
    then show ?thesis unfolding step .
  qed
qed

section \<open>Deleting all rows\<close>

lemma svc_query_entities_up:
  "outage s = None \<Longrightarrow> tables s t = Some rows \<Longrightarrow> svc_query_entities t s = (Inr rows, s)"
  by (simp add: svc_query_entities_def)

lemma delete_all_rows_batch_ok:
  assumes up: "outage s = None" and tab: "tables s t = Some rows" and wf: "wf_table rows"
  shows "\<exists>s'. delete_all_rows_batch t s = (Inr (), s') \<and> outage s' = None
            \<and> tables s' = (tables s)(t \<mapsto> [])"
proof -
  have "\<exists>ks' pending' cur' s'.
     delete_loop t rows (delete_ops []) None (length ([] :: (val \<times> val) list)) s
       = (Inr (delete_ops ks', length ks'), s')
     \<and> outage s' = None \<and> tables s' = (tables s)(t \<mapsto> pending')
     \<and> map key_of pending' = map Some ks' \<and> wf_table pending' \<and> length ks' \<le> 100
     \<and> (\<forall>k\<in>set ks'. Some (fst k) = cur')"
    using up tab wf by (intro delete_loop_ok [where pending = "[]" and ks = "[]"]) simp_all
  then obtain ks' pending' cur' s1 where
    loop: "delete_loop t rows [] None 0 s = (Inr (delete_ops ks', length ks'), s1)"
    and s1: "outage s1 = None" "tables s1 = (tables s)(t \<mapsto> pending')"
    and p: "map key_of pending' = map Some ks'" "wf_table pending'" "length ks' \<le> 100"
    and c: "\<forall>k\<in>set ks'. Some (fst k) = cur'"
    by (auto simp: delete_ops_def)
  have run: "delete_all_rows_batch t s
      = (if length ks' > 0 then svc_commit_batch t (delete_ops ks') else return ()) s1"
    unfolding delete_all_rows_batch_def
    by (simp add: and_then_Inr [of "svc_query_entities t", OF svc_query_entities_up [OF up tab]]
        and_then_Inr [of "delete_loop t rows [] None 0", OF loop])
  show ?thesis
  proof (cases ks')
    case Nil
    with p have "pending' = []" by simp
    with Nil s1 run show ?thesis by (simp add: return_def)
  next
    case (Cons k ks'')
    with c have "\<forall>k'\<in>set ks'. fst k' = fst k" by auto
    then have sp: "single_partition (delete_ops ks')" by (rule single_partition_delete_ops)
    have ap: "apply_ops (clock s1) (delete_ops ks') pending' = Inr []"
      using apply_delete_ops [of pending' ks' "[]"] p by (simp add: wf_table_def)
    have t1: "tables s1 t = Some pending'" using s1 by simp
    have "svc_commit_batch t (delete_ops ks') s1 = (Inr (), perform (CommitBatch t (delete_ops ks')) s1)"
      using s1(1) t1 _ sp ap by (rule commit_batch_ok) (simp add: delete_ops_def p(3))
    with Cons run s1 tables_perform_commit [OF t1 ap] show ?thesis by simp
  qed
qed

lemma delete_all_rows_batch_empty:
  "outage s = None \<Longrightarrow> tables s t = Some [] \<Longrightarrow> delete_all_rows_batch t s = (Inr (), s)"
  by (simp add: delete_all_rows_batch_def and_then_Inr [of "svc_query_entities t", OF svc_query_entities_up]
      return_def)

text \<open>
  Claim C7.  On a table that satisfies the table invariant, with the service reachable,
  \<^verbatim>\<open>delete_all_rows_batch\<close> succeeds and a full scan of the table afterwards returns
  no entity; and when the table has no entity to begin with, the call succeeds without
  committing a batch: the journal of the store is as it was.
\<close>

theorem delete_all_rows_batch_exhaustive:
  assumes "outage s = None" "tables s t = Some rows" "wf_table rows"
  shows "fst (delete_all_rows_batch t s) = Inr ()
     \<and> fst (svc_query_entities t (snd (delete_all_rows_batch t s))) = Inr []
     \<and> (rows = [] \<longrightarrow> journal (snd (delete_all_rows_batch t s)) = journal s)"
proof -
  obtain s' where s': "delete_all_rows_batch t s = (Inr (), s')" "outage s' = None"
    "tables s' = (tables s)(t \<mapsto> [])"
    using delete_all_rows_batch_ok [OF assms] by blast
  then have "svc_query_entities t s' = (Inr [], s')"
    by (intro svc_query_entities_up) simp_all
  with s' delete_all_rows_batch_empty [of s t] assms show ?thesis by auto
qed

theorem delete_all_rows_batch_exhaustive_witness:
  "outage store_two = None \<and> tables store_two ''T'' = Some rows_two \<and> wf_table rows_two
   \<and> fst (delete_all_rows_batch ''T'' store_two) = Inr ()
   \<and> fst (svc_query_entities ''T'' (snd (delete_all_rows_batch ''T'' store_two))) = Inr []"
proof -
  have h: "outage store_two = None" "tables store_two ''T'' = Some rows_two" "wf_table rows_two"
    by (simp_all add: store_two_def rows_two_def wf_table_def key_of_def)
  from delete_all_rows_batch_exhaustive [OF h] h show ?thesis by simp
qed

section \<open>Renaming a table whose scan is empty\<close>

lemma svc_exists_up: "outage s = None \<Longrightarrow> svc_exists t s = (Inr (t \<in> dom (tables s)), s)"
  by (simp add: svc_exists_def)

lemma delete_table_if_exists_up:
  "outage s = None \<Longrightarrow>
   delete_table_if_exists t s
     = (Inr (), if t \<in> dom (tables s) then perform (DeleteTable t) s else s)"
  by (simp add: delete_table_if_exists_def and_then_Inr [of "svc_exists t", OF svc_exists_up]
      svc_delete_table_def return_def)

lemma create_table_up:
  "outage s = None \<Longrightarrow>
   create_table t s = (Inr (), if t \<in> dom (tables s) then s else perform (CreateTable t) s)"
  by (simp add: create_table_def table_exists_def and_then_Inr [of "svc_exists t", OF svc_exists_up]
      svc_create_table_def return_def)

lemma query_entities_up:
  "outage s = None \<Longrightarrow> tables s t = Some rows \<Longrightarrow> query_entities t s = (Inr (DataFrame rows), s)"
  by (simp add: query_entities_def and_then_Inr [of "svc_query_entities t", OF svc_query_entities_up]
      return_def)

lemma drop_column_empty_frame: "drop_column c (DataFrame []) = Inl (KeyError c)"
  by (simp add: drop_column_def DataFrame_def)

text \<open>
  Claim C10.  When the scan of the source table yields no entity (and the service is
  reachable), \<^verbatim>\<open>rename_table\<close> raises the \<^verbatim>\<open>KeyError\<close> of dropping the absent
  \<^verbatim>\<open>Timestamp\<close> column.  By then the destination has been deleted if it existed and
  created afresh, and nothing else has happened: the destination is an empty table and
  the source table is still there.
\<close>

theorem rename_table_empty_source:
  assumes up: "outage s = None" and src: "tables s old_name = Some []"
  shows "fst (rename_table old_name new_name s) = Inl (KeyError ''Timestamp'')
     \<and> journal (snd (rename_table old_name new_name s))
         = journal s @ (if new_name \<in> dom (tables s) then [DeleteTable new_name] else [])
             @ [CreateTable new_name]
     \<and> tables (snd (rename_table old_name new_name s)) = (tables s)(new_name \<mapsto> [])
     \<and> tables (snd (rename_table old_name new_name s)) new_name = Some []
     \<and> tables (snd (rename_table old_name new_name s)) old_name = Some []"
proof -
  define s1 where "s1 = (if new_name \<in> dom (tables s) then perform (DeleteTable new_name) s else s)"
  define s2 where "s2 = perform (CreateTable new_name) s1"
  have s1: "outage s1 = None" "new_name \<notin> dom (tables s1)"
    "journal s1 = journal s @ (if new_name \<in> dom (tables s) then [DeleteTable new_name] else [])"
    "(tables s1)(new_name \<mapsto> []) = (tables s)(new_name \<mapsto> [])"
    using up by (auto simp: s1_def tables_perform)
  have s2: "outage s2 = None" "journal s2 = journal s1 @ [CreateTable new_name]"
    "tables s2 = (tables s)(new_name \<mapsto> [])"
    using s1 by (simp_all add: s2_def tables_perform)
  have src2: "tables s2 old_name = Some []" using s2 src by simp
  have a: "delete_table_if_exists new_name s = (Inr (), s1)"
    using up by (simp add: delete_table_if_exists_up s1_def)
  have b: "create_table new_name s1 = (Inr (), s2)"
    using s1 by (simp add: create_table_up s2_def)
  have c: "query_entities old_name s2 = (Inr (DataFrame []), s2)"
    using s2 src2 by (simp add: query_entities_up)
  have "rename_table old_name new_name s = (Inl (KeyError ''Timestamp''), s2)"
    unfolding rename_table_def
    by (simp add: and_then_Inr [of "delete_table_if_exists new_name", OF a]
        and_then_Inr [of "create_table new_name", OF b]
        and_then_Inr [of "query_entities old_name", OF c] drop_column_empty_frame raise_def)
  with s1 s2 src2 show ?thesis by simp
qed

theorem rename_table_empty_source_witness:
  "outage store_empty_source = None \<and> tables store_empty_source ''Old'' = Some []
   \<and> fst (rename_table ''Old'' ''New'' store_empty_source) = Inl (KeyError ''Timestamp'')
   \<and> journal (snd (rename_table ''Old'' ''New'' store_empty_source))
       = [DeleteTable ''New'', CreateTable ''New'']
   \<and> tables (snd (rename_table ''Old'' ''New'' store_empty_source)) ''New'' = Some []
   \<and> tables (snd (rename_table ''Old'' ''New'' store_empty_source)) ''Old'' = Some []"
proof -
  have h: "outage store_empty_source = None" "tables store_empty_source ''Old'' = Some []"
    by (simp_all add: store_empty_source_def)
  have j: "journal store_empty_source = []" "''New'' \<in> dom (tables store_empty_source)"
    by (simp_all add: store_empty_source_def)
  from rename_table_empty_source [OF h, of "''New''"] h j show ?thesis by simp
qed

section \<open>Batches of the batched writer\<close>

lemmas eval_defs = write_df_to_azure_table_batch_def table_exists_def svc_exists_def
  create_table_def svc_create_table_def perform_def to_dict_records_def new_entity_def getitem_def
  svc_commit_batch_def single_partition_def and_then_def return_def lift_def

text \<open>
  Claim C1, evaluated on a frame of two rows with the partition keys \<open>A\<close> and \<open>B\<close>.
  The claim has the writer flush at the change of key and commit two batches.  The loop
  of \<^verbatim>\<open>write_df_to_azure_table_batch\<close> only counts to 100: it ends with both inserts
  in one pending batch and has committed nothing; the service refuses the mixed batch,
  the call fails, and no row is written.
\<close>

theorem write_batch_mixes_partitions:
  "write_loop ''N'' (to_dict_records frame_two_partitions) [] 0 store_none
     = (Inr ([InsertOp [(''PartitionKey'', Str ''A''), (''RowKey'', Str ''1'')],
              InsertOp [(''PartitionKey'', Str ''B''), (''RowKey'', Str ''2'')]], 2), store_none)
   \<and> fst (write_df_to_azure_table_batch ''N'' frame_two_partitions False store_none)
       = Inl BatchConstraintViolation
   \<and> journal (snd (write_df_to_azure_table_batch ''N'' frame_two_partitions False store_none))
       = [CreateTable ''N'']
   \<and> tables (snd (write_df_to_azure_table_batch ''N'' frame_two_partitions False store_none)) ''N''
       = Some []"
  by (simp add: eval_defs frame_two_partitions_def store_none_def upt_rec)

section \<open>What the batching loops commit\<close>

lemma commit_batch_cases:
  assumes "svc_commit_batch t ops s = (r, s')"
  shows "(r = Inr () \<and> journal s' = journal s @ [CommitBatch t ops] \<and> length ops \<le> 100
          \<and> single_partition ops)
       \<or> ((\<exists>e. r = Inl e) \<and> journal s' = journal s)"
  using assms unfolding svc_commit_batch_def
  by (cases rule: request_cases) (auto split: option.splits if_splits sum.splits)

lemma write_loop_journal:
  assumes "write_loop t rows batch cnt s = (r, s')" "cnt = length batch" "cnt < 100"
  shows "\<exists>bs. journal s' = journal s @ map (CommitBatch t) bs
     \<and> (\<forall>b\<in>set bs. length b \<le> 100)
     \<and> (case r of
          Inr (batch', cnt') \<Rightarrow>
            map Inr (concat bs @ batch') = map Inr batch @ map insert_op rows
            \<and> cnt' = length batch' \<and> cnt' < 100
        | Inl e \<Rightarrow> prefix (map Inr (concat bs)) (map Inr batch @ map insert_op rows))"
  using assms
proof (induction rows arbitrary: batch cnt s)
  case Nil
  then show ?case by (auto simp: return_def intro!: exI [of _ "[]"])
next
  case (Cons row rows)
  show ?case
  proof (cases "new_entity row")
    case (Inl e)
    with Cons.prems show ?thesis
      by (auto simp: raise_def intro!: exI [of _ "[]"])
  next
    case (Inr entity)
    then have op: "insert_op row = Inr (InsertOp entity)" by (simp add: insert_op_def)
    show ?thesis
    proof (cases "cnt + 1 = 100")
      case False
      with Cons.prems Inr
      have run: "write_loop t rows (batch @ [InsertOp entity]) (cnt + 1) s = (r, s')" by simp
      from Cons.IH [OF run] Cons.prems(2,3) False obtain bs where
        "journal s' = journal s @ map (CommitBatch t) bs" "\<forall>b\<in>set bs. length b \<le> 100"
        "case r of
           Inr (batch', cnt') \<Rightarrow>
             map Inr (concat bs @ batch') = map Inr (batch @ [InsertOp entity]) @ map insert_op rows
             \<and> cnt' = length batch' \<and> cnt' < 100
         | Inl e \<Rightarrow> prefix (map Inr (concat bs))
                     (map Inr (batch @ [InsertOp entity]) @ map insert_op rows)"
        by auto
      with op show ?thesis
        by (intro exI [of _ bs]) (auto split: sum.splits)
    next
      case True
      with Cons.prems Inr
      have run: "and_then (svc_commit_batch t (batch @ [InsertOp entity]))
                   (\<lambda>_. write_loop t rows [] 0) s = (r, s')" by simp
      then show ?thesis
      proof (cases rule: and_then_cases)
        case (fail e)
        with commit_batch_cases [OF fail(1)] show ?thesis
          by (auto intro!: exI [of _ "[]"])
      next
        case (ok x s1)
        from commit_batch_cases [OF ok(1)]
        have j1: "journal s1 = journal s @ [CommitBatch t (batch @ [InsertOp entity])]"
          and len: "length (batch @ [InsertOp entity]) \<le> 100" by auto
        from Cons.IH [OF ok(2)] obtain bs where bs:
          "journal s' = journal s1 @ map (CommitBatch t) bs" "\<forall>b\<in>set bs. length b \<le> 100"
          "case r of
             Inr (batch', cnt') \<Rightarrow>
               map Inr (concat bs @ batch') = map Inr [] @ map insert_op rows
               \<and> cnt' = length batch' \<and> cnt' < 100
           | Inl e \<Rightarrow> prefix (map Inr (concat bs)) (map Inr [] @ map insert_op rows)"
          by auto
        show ?thesis
          using bs j1 len op
          by (intro exI [of _ "(batch @ [InsertOp entity]) # bs"])
             (auto split: sum.splits)
      qed
    qed
  qed
qed

lemma delete_loop_journal:
  assumes "delete_loop t todo batch cur cnt s = (r, s')" "cnt = length batch" "cnt \<le> 100"
    "cur = None \<longrightarrow> batch = []"
  shows "\<exists>bs. journal s' = journal s @ map (CommitBatch t) bs
     \<and> (\<forall>b\<in>set bs. length b \<le> 100 \<and> single_partition b)
     \<and> (case r of
          Inr (batch', cnt') \<Rightarrow>
            map Inr (concat bs @ batch') = map Inr batch @ map delete_op todo
            \<and> cnt' = length batch' \<and> cnt' \<le> 100
        | Inl e \<Rightarrow> prefix (map Inr (concat bs)) (map Inr batch @ map delete_op todo))"
  using assms
proof (induction todo arbitrary: batch cur cnt s)
  case Nil
  then show ?case by (auto simp: return_def intro!: exI [of _ "[]"])
next
  case (Cons e todo)
  show ?case
  proof (cases "getitem e ''PartitionKey''")
    case (Inl err)
    with Cons.prems show ?thesis
      by (auto simp: raise_def intro!: exI [of _ "[]"])
  next
    case (Inr pk)
    define m where "m = (if cur \<noteq> Some pk \<or> cnt = 100
        then and_then
               (if cur \<noteq> None then svc_commit_batch t batch else return ())
               (\<lambda>_. return ([], Some pk, 0))
        else return (batch, cur, cnt))"
    define k where "k = (\<lambda>(batch, current_partition_key, batch_count).
       and_then (lift (getitem e ''RowKey'')) (\<lambda>rk.
       delete_loop t todo (batch @ [DeleteOp pk rk]) current_partition_key (batch_count + 1)))"
    have run: "and_then m k s = (r, s')"
      using Cons.prems(1) unfolding delete_loop.simps Inr and_then_lift_Inr m_def k_def .
    have ms: "case m s of
              (Inl err, s1) \<Rightarrow> journal s1 = journal s
            | (Inr x, s1) \<Rightarrow>
                (\<exists>bs0 batch0 cur0.
                   (\<forall>b\<in>set bs0. length b \<le> 100 \<and> single_partition b)
                   \<and> concat bs0 @ batch0 = batch \<and> length batch0 < 100 \<and> cur0 \<noteq> None
                   \<and> journal s1 = journal s @ map (CommitBatch t) bs0
                   \<and> x = (batch0, cur0, length batch0))"
    proof (cases "cur \<noteq> Some pk \<or> cnt = 100")
      case False
      with Cons.prems show ?thesis
        by (auto simp: m_def return_def intro!: exI [of _ "[]"])
    next
      case True
      show ?thesis
      proof (cases cur)
        case None
        with True Cons.prems show ?thesis
          by (auto simp: m_def return_def intro!: exI [of _ "[]"])
      next
        case (Some c)
        obtain r1 s1 where c1: "svc_commit_batch t batch s = (r1, s1)" by force
        from commit_batch_cases [OF c1] True Some c1 show ?thesis
          by (auto simp: m_def return_def and_then_def intro!: exI [of _ "[batch]"])
      qed
    qed
    from run show ?thesis
    proof (cases rule: and_then_cases)
      case (fail err)
      with ms show ?thesis by (auto intro!: exI [of _ "[]"])
    next
      case (ok x s1)
      with ms obtain bs0 batch0 cur0 where
        bs0: "\<forall>b\<in>set bs0. length b \<le> 100 \<and> single_partition b"
        and cat: "concat bs0 @ batch0 = batch" and len0: "length batch0 < 100"
        and cur0: "cur0 \<noteq> None"
        and j1: "journal s1 = journal s @ map (CommitBatch t) bs0"
        and x: "x = (batch0, cur0, length batch0)" by auto
      show ?thesis
      proof (cases "getitem e ''RowKey''")
        case (Inl err)
        with ok(2) x have "r = Inl err" "s' = s1" by (auto simp: k_def raise_def)
        with j1 bs0 show ?thesis
          unfolding cat [symmetric]
          by (intro exI [of _ bs0]) (auto simp: prefix_def)
      next
        case (Inr rk)
        then have op: "delete_op e = Inr (DeleteOp pk rk)"
          using \<open>getitem e ''PartitionKey'' = Inr pk\<close> by (simp add: delete_op_def)
        from ok(2) x Inr
        have run': "delete_loop t todo (batch0 @ [DeleteOp pk rk]) cur0 (length batch0 + 1) s1 = (r, s')"
          by (simp add: k_def)
        from Cons.IH [OF run'] len0 cur0 obtain bs where bs:
          "journal s' = journal s1 @ map (CommitBatch t) bs"
          "\<forall>b\<in>set bs. length b \<le> 100 \<and> single_partition b"
          "case r of
             Inr (batch', cnt') \<Rightarrow>
               map Inr (concat bs @ batch') = map Inr (batch0 @ [DeleteOp pk rk]) @ map delete_op todo
               \<and> cnt' = length batch' \<and> cnt' \<le> 100
           | Inl e \<Rightarrow> prefix (map Inr (concat bs))
                       (map Inr (batch0 @ [DeleteOp pk rk]) @ map delete_op todo)"
          by auto
        from bs j1 bs0 op show ?thesis
          unfolding cat [symmetric]
          by (intro exI [of _ "bs0 @ bs"]) (auto split: sum.splits)
      qed
    qed
  qed
qed

lemma advances_refl [simp]: "advances s [] s"
  by (simp add: advances_def)

lemma advances_outage_left [simp]: "advances (s\<lparr>outage := x\<rparr>) evs s' = advances s evs s'"
  by (simp add: advances_def)

lemma advances_perform [simp]: "advances s [ev] (perform ev s)"
  by (simp add: advances_def perform_def)

lemma advances_outage [simp]: "advances s [] (s\<lparr>outage := x\<rparr>)"
  by (simp add: advances_def)

lemma advances_perform_outage [simp]: "advances s [ev] (perform ev (s\<lparr>outage := x\<rparr>))"
  by (simp add: advances_def perform_def)

lemma advances_trans: "advances s a s1 \<Longrightarrow> advances s1 b s2 \<Longrightarrow> advances s (a @ b) s2"
  by (auto simp: advances_def)

lemma advances_Nil: "advances s [] s' \<Longrightarrow> tables s' = tables s \<and> journal s' = journal s \<and> clock s' = clock s"
  by (simp add: advances_def)

lemma advances_journal: "advances s evs s' \<Longrightarrow> journal s' = journal s @ evs"
  by (simp add: advances_def)

lemma svc_exists_cases:
  assumes "svc_exists t s = (r, s')"
  shows "advances s [] s' \<and> (\<forall>b. r = Inr b \<longrightarrow> b = (t \<in> dom (tables s)))"
  using assms unfolding svc_exists_def
  by (cases rule: request_cases) auto

lemma svc_create_table_cases:
  assumes "svc_create_table t s = (r, s')"
  shows "(r = Inr () \<and> advances s (if t \<in> dom (tables s) then [] else [CreateTable t]) s')
       \<or> ((\<exists>e. r = Inl e) \<and> advances s [] s')"
  using assms unfolding svc_create_table_def
  by (cases rule: request_cases) (auto split: if_splits)

lemma svc_delete_table_cases:
  assumes "svc_delete_table t s = (r, s')"
  shows "(r = Inr () \<and> advances s (if t \<in> dom (tables s) then [DeleteTable t] else []) s')
       \<or> ((\<exists>e. r = Inl e) \<and> advances s [] s')"
  using assms unfolding svc_delete_table_def
  by (cases rule: request_cases) (auto split: if_splits)

lemma svc_query_entities_cases:
  assumes "svc_query_entities t s = (r, s')"
  shows "advances s [] s' \<and> (\<forall>rows. r = Inr rows \<longrightarrow> tables s t = Some rows)"
  using assms unfolding svc_query_entities_def
  by (cases rule: request_cases) (auto split: option.splits)

lemma svc_insert_entity_cases:
  assumes "svc_insert_entity t e s = (r, s')"
  shows "(r = Inr () \<and> advances s [InsertEntity t e] s')
       \<or> ((\<exists>err. r = Inl err) \<and> advances s [] s')"
  using assms unfolding svc_insert_entity_def
  by (cases rule: request_cases) (auto split: option.splits sum.splits)

lemma svc_update_entity_cases:
  assumes "svc_update_entity t e s = (r, s')"
  shows "(r = Inr () \<and> advances s [UpdateEntity t e] s')
       \<or> ((\<exists>err. r = Inl err) \<and> advances s [] s')"
  using assms unfolding svc_update_entity_def
  by (cases rule: request_cases) (auto split: option.splits sum.splits)

lemma delete_table_if_exists_cases:
  assumes "delete_table_if_exists t s = (r, s')"
  shows "(r = Inr () \<and> advances s (if t \<in> dom (tables s) then [DeleteTable t] else []) s')
       \<or> ((\<exists>e. r = Inl e) \<and> advances s [] s')"
  using assms unfolding delete_table_if_exists_def
proof (cases rule: and_then_cases)
  case (fail e)
  with svc_exists_cases [OF fail(1)] show ?thesis by auto
next
  case (ok x s1)
  from svc_exists_cases [OF ok(1)] have s1: "advances s [] s1" "x = (t \<in> dom (tables s))" by auto
  show ?thesis
  proof (cases x)
    case True
    with ok(2) have "svc_delete_table t s1 = (r, s')" by simp
    from svc_delete_table_cases [OF this] s1 True advances_Nil [OF s1(1)]
    show ?thesis by (auto dest: advances_trans [OF s1(1)])
  next
    case False
    with ok(2) s1 show ?thesis by (auto simp: return_def)
  qed
qed

lemma create_table_cases:
  assumes "create_table t s = (r, s')"
  shows "(r = Inr () \<and> advances s (if t \<in> dom (tables s) then [] else [CreateTable t]) s')
       \<or> ((\<exists>e. r = Inl e) \<and> advances s [] s')"
  using assms unfolding create_table_def table_exists_def
proof (cases rule: and_then_cases)
  case (fail e)
  with svc_exists_cases [OF fail(1)] show ?thesis by auto
next
  case (ok x s1)
  from svc_exists_cases [OF ok(1)] have s1: "advances s [] s1" "x = (t \<in> dom (tables s))" by auto
  show ?thesis
  proof (cases x)
    case False
    with ok(2) have "svc_create_table t s1 = (r, s')" by simp
    from svc_create_table_cases [OF this] s1 False advances_Nil [OF s1(1)]
    show ?thesis by (auto dest: advances_trans [OF s1(1)])
  next
    case True
    with ok(2) s1 show ?thesis by (auto simp: return_def)
  qed
qed

lemma batches_append [simp]: "batches (a @ b) = batches a @ batches b"
  by (simp add: batches_def)

lemma batches_commits [simp]: "batches (map (CommitBatch t) bs) = bs"
  by (induction bs) (simp_all add: batches_def)

lemma batches_simps [simp]:
  "batches [] = []" "batches [CreateTable t] = []" "batches [DeleteTable t] = []"
  "batches [CommitBatch t ops] = [ops]" "batches [InsertEntity t e] = []"
  "batches [UpdateEntity t e] = []"
  by (simp_all add: batches_def)

lemma delete_all_rows_batch_journal:
  assumes run: "delete_all_rows_batch t s = (r, s')"
    and tab: "rows = (case tables s t of None \<Rightarrow> [] | Some rs \<Rightarrow> rs)"
  shows "\<exists>bs. journal s' = journal s @ map (CommitBatch t) bs
     \<and> (\<forall>b\<in>set bs. length b \<le> 100 \<and> single_partition b)
     \<and> prefix (map Inr (concat bs)) (map delete_op rows)
     \<and> (r = Inr () \<longrightarrow> map Inr (concat bs) = map delete_op rows)"
  using run unfolding delete_all_rows_batch_def
proof (cases rule: and_then_cases)
  case (fail e)
  with svc_query_entities_cases [OF fail(1)] show ?thesis
    by (auto dest!: advances_Nil intro!: exI [of _ "[]"])
next
  case (ok entities s1)
  from svc_query_entities_cases [OF ok(1)] tab
  have s1: "journal s1 = journal s" and ents: "entities = rows"
    by (auto dest!: advances_Nil)
  from ok(2) show ?thesis
  proof (cases rule: and_then_cases)
    case (fail e)
    from delete_loop_journal [OF fail(1)] fail(2) s1 ents show ?thesis by auto
  next
    case (ok x s2)
    obtain batch cnt where x: "x = (batch, cnt)" by (cases x)
    from delete_loop_journal [OF ok(1) [unfolded x]] obtain bs where bs:
      "journal s2 = journal s1 @ map (CommitBatch t) bs"
      "\<forall>b\<in>set bs. length b \<le> 100 \<and> single_partition b"
      "map Inr (concat bs @ batch) = map delete_op entities" "cnt = length batch" "cnt \<le> 100"
      by auto
    show ?thesis
    proof (cases "cnt > 0")
      case False
      with ok(2) x bs s1 ents show ?thesis
        by (intro exI [of _ bs]) (auto simp: return_def)
    next
      case True
      with ok(2) x have c: "svc_commit_batch t batch s2 = (r, s')" by simp
      from commit_batch_cases [OF c] show ?thesis
      proof
        assume "r = Inr () \<and> journal s' = journal s2 @ [CommitBatch t batch] \<and> length batch \<le> 100
          \<and> single_partition batch"
        with bs s1 ents show ?thesis
          by (intro exI [of _ "bs @ [batch]"]) auto
      next
        assume "(\<exists>e. r = Inl e) \<and> journal s' = journal s2"
        moreover have "prefix (map Inr (concat bs)) (map delete_op rows)"
          using bs(3) ents by (metis map_append prefixI)
        ultimately show ?thesis
          using bs s1 by (intro exI [of _ bs]) auto
      qed
    qed
  qed
qed

lemma prefix_insert_ops:
  "prefix (map Inr xs) (map insert_op rows) \<Longrightarrow> filter is_insert xs = xs"
proof (induction xs arbitrary: rows)
  case Nil
  then show ?case by simp
next
  case (Cons x xs)
  then obtain row rows' where rows: "rows = row # rows'" by (cases rows) auto
  with Cons.prems have x: "insert_op row = Inr x" and p: "prefix (map Inr xs) (map insert_op rows')"
    by auto
  from x have "is_insert x" by (auto simp: insert_op_def split: sum.splits)
  with Cons.IH [OF p] show ?case by simp
qed

lemma prefix_delete_ops:
  "prefix (map Inr xs) (map delete_op rows) \<Longrightarrow> filter is_insert xs = []"
proof (induction xs arbitrary: rows)
  case Nil
  then show ?case by simp
next
  case (Cons x xs)
  then obtain row rows' where rows: "rows = row # rows'" by (cases rows) auto
  with Cons.prems have x: "delete_op row = Inr x" and p: "prefix (map Inr xs) (map delete_op rows')"
    by auto
  from x have "\<not> is_insert x" by (auto simp: delete_op_def split: sum.splits)
  with Cons.IH [OF p] show ?case by simp
qed

lemma truncate_journal:
  assumes "(if tr then delete_all_rows_batch t else return ()) s = (r, s')"
  shows "\<exists>bs. journal s' = journal s @ map (CommitBatch t) bs
     \<and> (\<forall>b\<in>set bs. length b \<le> 100) \<and> filter is_insert (concat bs) = []"
proof (cases tr)
  case False
  with assms show ?thesis by (auto simp: return_def intro!: exI [of _ "[]"])
next
  case True
  with assms have "delete_all_rows_batch t s = (r, s')" by simp
  from delete_all_rows_batch_journal [OF this refl] obtain bs where
    "journal s' = journal s @ map (CommitBatch t) bs"
    "\<forall>b\<in>set bs. length b \<le> 100 \<and> single_partition b"
    "prefix (map Inr (concat bs)) (map delete_op (case tables s t of None \<Rightarrow> [] | Some rs \<Rightarrow> rs))"
    by blast
  then show ?thesis
    by (intro exI [of _ bs]) (auto dest: prefix_delete_ops)
qed

lemma ensure_table_journal:
  assumes "and_then (table_exists t) (\<lambda>ex. if \<not> ex then create_table t else return ()) s = (r, s')"
  shows "\<exists>evs. journal s' = journal s @ evs \<and> (evs = [] \<or> evs = [CreateTable t])"
  using assms
proof (cases rule: and_then_cases)
  case (fail e)
  with svc_exists_cases [of t s "Inl e" s'] show ?thesis
    by (auto simp: table_exists_def dest!: advances_Nil)
next
  case (ok x s1)
  from svc_exists_cases [of t s "Inr x" s1] ok(1) have j1: "journal s1 = journal s"
    by (auto simp: table_exists_def dest!: advances_Nil)
  show ?thesis
  proof (cases x)
    case True
    with ok(2) j1 show ?thesis by (auto simp: return_def)
  next
    case False
    with ok(2) have "create_table t s1 = (r, s')" by simp
    from create_table_cases [OF this] j1 show ?thesis
      by (auto dest!: advances_journal split: if_splits)
  qed
qed

lemma and_then_assoc: "and_then (and_then m f) g = and_then m (\<lambda>x. and_then (f x) g)"
  by (rule ext) (auto simp: and_then_def split: prod.splits sum.splits)

lemma write_batch_journal:
  assumes run: "write_df_to_azure_table_batch t df tr s = (r, s')"
  shows "\<exists>evs. journal s' = journal s @ evs
     \<and> (\<forall>b\<in>set (batches evs). length b \<le> 100)
     \<and> prefix (map Inr (filter is_insert (concat (batches evs)))) (map insert_op (to_dict_records df))
     \<and> (r = Inr () \<longrightarrow>
          map Inr (filter is_insert (concat (batches evs))) = map insert_op (to_dict_records df))"
proof -
  define pre where "pre = and_then (table_exists t) (\<lambda>ex. if \<not> ex then create_table t else return ())"
  define fin where "fin = (\<lambda>(batch, batch_count :: nat).
       if batch_count > 0 then svc_commit_batch t batch else return ())"
  have run': "and_then pre (\<lambda>_.
     and_then (if tr then delete_all_rows_batch t else return ()) (\<lambda>_.
     and_then (write_loop t (to_dict_records df) [] 0) fin)) s = (r, s')"
    using run unfolding write_df_to_azure_table_batch_def pre_def fin_def and_then_assoc .
  from run' show ?thesis
  proof (cases rule: and_then_cases)
    case (fail e)
    from ensure_table_journal [OF fail(1) [unfolded pre_def]] fail(2) show ?thesis by auto
  next
    case (ok x s1)
    from ensure_table_journal [OF ok(1) [unfolded pre_def]] obtain e0 where
      e0: "journal s1 = journal s @ e0" "batches e0 = []" by auto
    from ok(2) show ?thesis
    proof (cases rule: and_then_cases)
      case (fail e)
      from truncate_journal [OF fail(1)] obtain bd where
        "journal s' = journal s1 @ map (CommitBatch t) bd" "\<forall>b\<in>set bd. length b \<le> 100"
        "filter is_insert (concat bd) = []" by blast
      with e0 fail(2) show ?thesis
        by (intro exI [of _ "e0 @ map (CommitBatch t) bd"]) auto
    next
      case (ok y s2)
      from truncate_journal [OF ok(1)] obtain bd where
        bd: "journal s2 = journal s1 @ map (CommitBatch t) bd" "\<forall>b\<in>set bd. length b \<le> 100"
          "filter is_insert (concat bd) = []" by blast
      from ok(2) show ?thesis
      proof (cases rule: and_then_cases)
        case (fail e)
        from write_loop_journal [OF fail(1)] obtain bs where bs:
          "journal s' = journal s2 @ map (CommitBatch t) bs" "\<forall>b\<in>set bs. length b \<le> 100"
          "prefix (map Inr (concat bs)) (map insert_op (to_dict_records df))"
          by auto
        from bs(3) have "filter is_insert (concat bs) = concat bs" by (rule prefix_insert_ops)
        with bs bd e0 fail(2) show ?thesis
          by (intro exI [of _ "e0 @ map (CommitBatch t) bd @ map (CommitBatch t) bs"]) auto
      next
        case (ok z s3)
        obtain batch cnt where z: "z = (batch, cnt)" by (cases z)
        from write_loop_journal [OF ok(1) [unfolded z]] obtain bs where bs:
          "journal s3 = journal s2 @ map (CommitBatch t) bs" "\<forall>b\<in>set bs. length b \<le> 100"
          "map Inr (concat bs @ batch) = map insert_op (to_dict_records df)"
          "cnt = length batch" "cnt < 100"
          by auto
        from bs(3) have all: "filter is_insert (concat bs @ batch) = concat bs @ batch"
          by (intro prefix_insert_ops [where rows = "to_dict_records df"]) simp
        then have "\<forall>x\<in>set (concat bs @ batch). is_insert x"
          unfolding filter_id_conv .
        then have ins: "filter is_insert (concat bs) = concat bs" "filter is_insert batch = batch"
          unfolding filter_id_conv by auto
        have pre: "prefix (map Inr (concat bs)) (map insert_op (to_dict_records df))"
          using bs(3) by (metis map_append prefixI)
        show ?thesis
        proof (cases "cnt > 0")
          case False
          with ok(2) z bs bd e0 ins show ?thesis
            by (intro exI [of _ "e0 @ map (CommitBatch t) bd @ map (CommitBatch t) bs"])
               (auto simp: fin_def return_def)
        next
          case True
          with ok(2) z have c: "svc_commit_batch t batch s3 = (r, s')" by (simp add: fin_def)
          from commit_batch_cases [OF c] show ?thesis
          proof
            assume "r = Inr () \<and> journal s' = journal s3 @ [CommitBatch t batch]
              \<and> length batch \<le> 100 \<and> single_partition batch"
            with bs bd e0 ins show ?thesis
              by (intro exI [of _ "e0 @ map (CommitBatch t) bd @ map (CommitBatch t) (bs @ [batch])"])
                 auto
          next
            assume "(\<exists>e. r = Inl e) \<and> journal s' = journal s3"
            with bs bd e0 ins pre show ?thesis
              by (intro exI [of _ "e0 @ map (CommitBatch t) bd @ map (CommitBatch t) bs"]) auto
          qed
        qed
      qed
    qed
  qed
qed

lemma since_append: "journal s' = journal s @ evs \<Longrightarrow> since s s' = evs"
  by (simp add: since_def)

lemmas eval_store = eval_defs delete_all_rows_batch_def svc_query_entities_def key_of_def stamp_def
  since_def batches_def insert_op_def delete_op_def

section \<open>Rows without a key\<close>

lemma inserted_append [simp]: "inserted (a @ b) = inserted a @ inserted b"
  by (simp add: inserted_def)

lemma inserted_simps [simp]:
  "inserted [] = []" "inserted [CreateTable t] = []" "inserted [DeleteTable t] = []"
  by (simp_all add: inserted_def)

lemma inserted_commits:
  "filter is_insert (concat bs) = [] \<Longrightarrow> inserted (map (CommitBatch t) bs) = []"
proof (induction bs)
  case Nil
  then show ?case by simp
next
  case (Cons b bs)
  then have b: "\<forall>x\<in>set b. \<not> is_insert x" and bs: "filter is_insert (concat bs) = []"
    by (auto simp: filter_empty_conv)
  have "concat (map (\<lambda>x. case x of InsertOp e \<Rightarrow> [e] | DeleteOp pk rk \<Rightarrow> []) b) = []"
    using b by (induction b) (auto split: operation.splits)
  with Cons.IH [OF bs] show ?case by (simp add: inserted_def)
qed

lemma prelude_journal:
  assumes "and_then (and_then (table_exists t) (\<lambda>ex. if \<not> ex then create_table t else return ()))
             (\<lambda>_. if tr then delete_all_rows_batch t else return ()) s = (r, s')"
  shows "\<exists>evs. journal s' = journal s @ evs \<and> inserted evs = []"
  using assms
proof (cases rule: and_then_cases)
  case (fail e)
  from ensure_table_journal [OF fail(1)] show ?thesis by auto
next
  case (ok x s1)
  from ensure_table_journal [OF ok(1)] obtain e0 where
    e0: "journal s1 = journal s @ e0" "inserted e0 = []" by auto
  from truncate_journal [OF ok(2)] obtain bd where
    "journal s' = journal s1 @ map (CommitBatch t) bd" "filter is_insert (concat bd) = []" by blast
  with e0 show ?thesis
    by (intro exI [of _ "e0 @ map (CommitBatch t) bd"]) (simp add: inserted_commits)
qed

lemma first_row_lacks_key:
  assumes "0 < n_rows df"
    and "''PartitionKey'' \<notin> fst ` set (series df) \<or> ''RowKey'' \<notin> fst ` set (series df)"
  shows "\<exists>row data k. to_dict_records df = row # data \<and> new_entity row = Inl (KeyError k)"
proof -
  define row where "row = map (\<lambda>(c, vs). (c, vs ! 0)) (series df)"
  have "[0..<n_rows df] = 0 # [1..<n_rows df]" using assms(1) by (simp add: upt_conv_Cons)
  then have rows: "to_dict_records df = row # map (\<lambda>i. map (\<lambda>(c, vs). (c, vs ! i)) (series df)) [1..<n_rows df]"
    by (simp add: to_dict_records_def row_def)
  have keys: "fst ` set row = fst ` set (series df)"
    by (force simp: row_def)
  have "\<exists>k. new_entity row = Inl (KeyError k)"
  proof (cases "''PartitionKey'' \<in> fst ` set (series df)")
    case False
    with keys have "map_of row ''PartitionKey'' = None" by (simp add: map_of_eq_None_iff)
    then show ?thesis by (simp add: new_entity_def getitem_def)
  next
    case True
    with assms(2) keys have "map_of row ''RowKey'' = None" by (simp add: map_of_eq_None_iff)
    then show ?thesis by (auto simp: new_entity_def getitem_def split: option.splits)
  qed
  with rows show ?thesis by blast
qed

text \<open>
  Claim C5.  The rows of a data frame all have the columns of the frame, so a row lacks
  \<^verbatim>\<open>PartitionKey\<close> or \<^verbatim>\<open>RowKey\<close> exactly when the frame has rows and lacks that
  column.  Then the loop over the rows, in the batched and in the one-by-one writer,
  raises the \<^verbatim>\<open>KeyError\<close> at the first row without a request to the service; the call
  fails, and nothing it got the store to accept inserts an entity, whatever the store,
  the outage and the truncate flag.
\<close>

theorem missing_key_rejected:
  assumes "0 < n_rows df"
    and "''PartitionKey'' \<notin> fst ` set (series df) \<or> ''RowKey'' \<notin> fst ` set (series df)"
  shows "(\<exists>k. write_loop t (to_dict_records df) [] 0 s = (Inl (KeyError k), s)
            \<and> insert_rows t (to_dict_records df) s = (Inl (KeyError k), s))
     \<and> (\<exists>e. fst (write_df_to_azure_table_batch t df tr s) = Inl e)
     \<and> inserted (since s (snd (write_df_to_azure_table_batch t df tr s))) = []
     \<and> (\<exists>e. fst (write_df_to_azure_table t df tr s) = Inl e)
     \<and> inserted (since s (snd (write_df_to_azure_table t df tr s))) = []"
proof -
  from first_row_lacks_key [OF assms] obtain row data k where
    rows: "to_dict_records df = row # data" and row: "new_entity row = Inl (KeyError k)" by blast
  have loop: "write_loop t (to_dict_records df) [] 0 = raise (KeyError k)"
    and ins: "insert_rows t (to_dict_records df) = raise (KeyError k)"
    by (simp_all add: rows row)
  define pre where "pre = and_then
      (and_then (table_exists t) (\<lambda>ex. if \<not> ex then create_table t else return ()))
      (\<lambda>_. if tr then delete_all_rows_batch t else return ())"
  have b: "write_df_to_azure_table_batch t df tr = and_then pre (\<lambda>_. raise (KeyError k))"
    by (simp add: write_df_to_azure_table_batch_def loop pre_def and_then_assoc)
  have w: "write_df_to_azure_table t df tr = and_then pre (\<lambda>_. raise (KeyError k))"
    by (simp add: write_df_to_azure_table_def ins pre_def and_then_assoc)
  obtain r s' where run: "and_then pre (\<lambda>_. raise (KeyError k)) s = (r :: error + unit, s')"
    by force
  have "(\<exists>e. r = Inl e) \<and> inserted (since s s') = []"
    using run
  proof (cases rule: and_then_cases)
    case (fail e)
    from prelude_journal [OF fail(1) [unfolded pre_def]] fail(2) show ?thesis
      by (auto simp: since_append)
  next
    case (ok x s1)
    from prelude_journal [OF ok(1) [unfolded pre_def]] ok(2) show ?thesis
      by (auto simp: since_append raise_def)
  qed
  with loop ins run show ?thesis
    unfolding b w by (simp add: raise_def)
qed

theorem missing_key_rejected_witness:
  "0 < n_rows frame_without_row_key
   \<and> ''RowKey'' \<notin> fst ` set (series frame_without_row_key)
   \<and> inserted (since store_two
        (snd (write_df_to_azure_table_batch ''T'' frame_without_row_key True store_two))) = []
   \<and> inserted (since store_two
        (snd (write_df_to_azure_table ''T'' frame_without_row_key True store_two))) = []"
proof -
  have h: "0 < n_rows frame_without_row_key"
    "''PartitionKey'' \<notin> fst ` set (series frame_without_row_key)
        \<or> ''RowKey'' \<notin> fst ` set (series frame_without_row_key)"
    by (simp_all add: frame_without_row_key_def)
  have r: "''RowKey'' \<notin> fst ` set (series frame_without_row_key)"
    by (simp add: frame_without_row_key_def)
  from missing_key_rejected [OF h, of "''T''" store_two True] h(1) r show ?thesis by simp
qed

section \<open>Copying and deleting a column\<close>

lemma copy_loop_update_each: "copy_loop t old new es = update_each t (copied old new) es"
  by (induction es) (auto simp: copied_def split: option.splits)

lemma delete_column_loop_update_each: "delete_column_loop t c es = update_each t (without c) es"
  by (induction es) (auto simp: without_def)

lemma key_of_stamp [simp]: "key_of (stamp c e) = key_of e"
  by (simp add: key_of_def stamp_def update_conv' split: option.splits)

lemma key_of_copied:
  "new \<noteq> ''PartitionKey'' \<Longrightarrow> new \<noteq> ''RowKey'' \<Longrightarrow> copied old new e = Some u \<Longrightarrow> key_of u = key_of e"
  by (auto simp: copied_def key_of_def update_conv' split: option.splits)

lemma filter_is_delete: "filter (\<lambda>(k, v). k \<noteq> c) e = AList.delete c e"
  by (induction e) auto

lemma key_of_without:
  "c \<noteq> ''PartitionKey'' \<Longrightarrow> c \<noteq> ''RowKey'' \<Longrightarrow> without c e = Some u \<Longrightarrow> key_of u = key_of e"
  by (auto simp: without_def key_of_def filter_is_delete delete_conv' split: if_splits option.splits)

lemma update_in_place:
  assumes "distinct (map key_of (pre @ e # todo))" "key_of e = Some k"
  shows "map (\<lambda>r. if key_of r = Some k then u else r) (pre @ e # todo) = pre @ u # todo"
proof -
  from assms have "\<forall>r\<in>set pre. key_of r \<noteq> Some k" "\<forall>r\<in>set todo. key_of r \<noteq> Some k"
    by (auto simp: image_iff)
  then have "map (\<lambda>r. if key_of r = Some k then u else r) pre = pre"
    "map (\<lambda>r. if key_of r = Some k then u else r) todo = todo"
    by (simp_all add: map_idI)
  with assms(2) show ?thesis by simp
qed

lemma tables_perform_update:
  "tables s t = Some rows \<Longrightarrow> apply_update (clock s) u rows = Inr rows' \<Longrightarrow>
   tables (perform (UpdateEntity t u) s) = (tables s)(t \<mapsto> rows')"
  by (simp add: perform_def)

lemma update_each_ok:
  assumes "outage s = None" "tables s t = Some (pre @ todo)" "wf_table (pre @ todo)"
    and keys: "\<And>e u. g e = Some u \<Longrightarrow> key_of u = key_of e"
  shows "\<exists>s' post. update_each t g todo s = (Inr (), s') \<and> outage s' = None
     \<and> tables s' = (tables s)(t \<mapsto> pre @ post)
     \<and> journal s' = journal s @ map (UpdateEntity t) (List.map_filter g todo)
     \<and> list_all2 (\<lambda>e e'. case g e of None \<Rightarrow> e' = e | Some u \<Rightarrow> \<exists>c. e' = stamp c u) todo post"
  using assms(1-3)
proof (induction todo arbitrary: s pre)
  case Nil
  have "(tables s)(t \<mapsto> pre) = tables s" using Nil.prems(2) by auto
  with Nil.prems show ?case
    by (intro exI [of _ s] exI [of _ "[]"]) (simp add: return_def map_filter_simps)
next
  case (Cons e todo)
  from Cons.prems(3) obtain k where k: "key_of e = Some k" by (auto simp: wf_table_def)
  show ?case
  proof (cases "g e")
    case None
    have "\<exists>s' post. update_each t g todo s = (Inr (), s') \<and> outage s' = None
       \<and> tables s' = (tables s)(t \<mapsto> (pre @ [e]) @ post)
       \<and> journal s' = journal s @ map (UpdateEntity t) (List.map_filter g todo)
       \<and> list_all2 (\<lambda>e e'. case g e of None \<Rightarrow> e' = e | Some u \<Rightarrow> \<exists>c. e' = stamp c u) todo post"
      using Cons.prems by (intro Cons.IH) simp_all
    then obtain s' post where "update_each t g todo s = (Inr (), s')" "outage s' = None"
      "tables s' = (tables s)(t \<mapsto> (pre @ [e]) @ post)"
      "journal s' = journal s @ map (UpdateEntity t) (List.map_filter g todo)"
      "list_all2 (\<lambda>e e'. case g e of None \<Rightarrow> e' = e | Some u \<Rightarrow> \<exists>c. e' = stamp c u) todo post"
      by blast
    with None show ?thesis
      by (intro exI [of _ s'] exI [of _ "e # post"]) (simp add: map_filter_simps)
  next
    case (Some u)
    define s1 where "s1 = perform (UpdateEntity t u) s"
    have ku: "key_of u = Some k" using keys [OF Some] k by simp
    have ap: "apply_update (clock s) u (pre @ e # todo) = Inr (pre @ stamp (clock s) u # todo)"
      using Cons.prems(3) k ku update_in_place [of pre e todo k "stamp (clock s) u"]
      by (simp add: apply_update_def wf_table_def)
    have up: "svc_update_entity t u s = (Inr (), s1)"
      using Cons.prems(1,2) ap by (simp add: svc_update_entity_def s1_def)
    have t1: "tables s1 = (tables s)(t \<mapsto> (pre @ [stamp (clock s) u]) @ todo)"
      using tables_perform_update [OF Cons.prems(2) ap] by (simp add: s1_def)
    have wf1: "wf_table ((pre @ [stamp (clock s) u]) @ todo)"
      using Cons.prems(3) k ku by (simp add: wf_table_def)
    have "\<exists>s' post. update_each t g todo s1 = (Inr (), s') \<and> outage s' = None
       \<and> tables s' = (tables s1)(t \<mapsto> (pre @ [stamp (clock s) u]) @ post)
       \<and> journal s' = journal s1 @ map (UpdateEntity t) (List.map_filter g todo)
       \<and> list_all2 (\<lambda>e e'. case g e of None \<Rightarrow> e' = e | Some u \<Rightarrow> \<exists>c. e' = stamp c u) todo post"
      using Cons.prems(1) t1 wf1 by (intro Cons.IH) (simp_all add: s1_def)
    then obtain s' post where "update_each t g todo s1 = (Inr (), s')" "outage s' = None"
      "tables s' = (tables s1)(t \<mapsto> (pre @ [stamp (clock s) u]) @ post)"
      "journal s' = journal s1 @ map (UpdateEntity t) (List.map_filter g todo)"
      "list_all2 (\<lambda>e e'. case g e of None \<Rightarrow> e' = e | Some u \<Rightarrow> \<exists>c. e' = stamp c u) todo post"
      by blast
    with Some t1 show ?thesis
      by (intro exI [of _ s'] exI [of _ "stamp (clock s) u # post"])
         (auto simp: map_filter_simps and_then_Inr [of "svc_update_entity t u", OF up] s1_def)
  qed
qed

text \<open>
  Claim C8.  On a table that satisfies the table invariant, with the service reachable,
  \<^verbatim>\<open>copy_column\<close> into a column that is not a key, and \<^verbatim>\<open>delete_column\<close> of a column
  that is not a key, return normally; the changes they make to the store are one update
  for each entity that has the column, in scan order and no other: the entity with the
  new column set to the value of the old one, respectively the entity less the named
  key.  Afterwards the table holds, position by position, that entity under a fresh
  \<^verbatim>\<open>Timestamp\<close> where the entity had the column, and the very same entity where it had
  not.
\<close>

theorem column_operations_frame:
  assumes "outage s = None" "tables s t = Some rows" "wf_table rows"
  shows "(new_column \<noteq> ''PartitionKey'' \<and> new_column \<noteq> ''RowKey'' \<longrightarrow>
       fst (copy_column t old_column new_column s) = Inr ()
       \<and> since s (snd (copy_column t old_column new_column s))
           = map (UpdateEntity t) (List.map_filter (copied old_column new_column) rows)
       \<and> (\<exists>post. tables (snd (copy_column t old_column new_column s)) t = Some post
             \<and> list_all2 (\<lambda>e e'. case map_of e old_column of
                                     None \<Rightarrow> e' = e
                                   | Some v \<Rightarrow> \<exists>c. e' = stamp c (AList.update new_column v e))
                 rows post))
    \<and> (column_name \<noteq> ''PartitionKey'' \<and> column_name \<noteq> ''RowKey'' \<longrightarrow>
       fst (delete_column t column_name s) = Inr ()
       \<and> since s (snd (delete_column t column_name s))
           = map (UpdateEntity t) (List.map_filter (without column_name) rows)
       \<and> (\<exists>post. tables (snd (delete_column t column_name s)) t = Some post
             \<and> list_all2 (\<lambda>e e'. if column_name \<in> fst ` set e
                                   then \<exists>c. e' = stamp c (filter (\<lambda>(k, v). k \<noteq> column_name) e)
                                   else e' = e)
                 rows post))"
proof -
  have scan: "svc_query_entities t s = (Inr rows, s)"
    using assms by (simp add: svc_query_entities_up)
  have gen: "fst (update_each t g rows s) = Inr ()
      \<and> since s (snd (update_each t g rows s)) = map (UpdateEntity t) (List.map_filter g rows)
      \<and> (\<exists>post. tables (snd (update_each t g rows s)) t = Some post
            \<and> list_all2 (\<lambda>e e'. case g e of None \<Rightarrow> e' = e | Some u \<Rightarrow> \<exists>c. e' = stamp c u) rows post)"
    if keys: "\<And>e u. g e = Some u \<Longrightarrow> key_of u = key_of e" for g
  proof -
    from update_each_ok [of s t "[]" rows g] assms keys
    obtain s' post where "update_each t g rows s = (Inr (), s')"
      "tables s' = (tables s)(t \<mapsto> post)"
      "journal s' = journal s @ map (UpdateEntity t) (List.map_filter g rows)"
      "list_all2 (\<lambda>e e'. case g e of None \<Rightarrow> e' = e | Some u \<Rightarrow> \<exists>c. e' = stamp c u) rows post"
      by auto
    then show ?thesis by (auto simp: since_append)
  qed
  have c: "copy_column t old_column new_column s = update_each t (copied old_column new_column) rows s"
    by (simp add: copy_column_def and_then_Inr [of "svc_query_entities t", OF scan]
        copy_loop_update_each)
  have d: "delete_column t column_name s = update_each t (without column_name) rows s"
    by (simp add: delete_column_def and_then_Inr [of "svc_query_entities t", OF scan]
        delete_column_loop_update_each)
  have R1: "(case copied old_column new_column e of None \<Rightarrow> e' = e | Some u \<Rightarrow> \<exists>c. e' = stamp c u)
      = (case map_of e old_column of None \<Rightarrow> e' = e
         | Some v \<Rightarrow> \<exists>c. e' = stamp c (AList.update new_column v e))" for e e'
    by (simp add: copied_def split: option.splits)
  have R2: "(case without column_name e of None \<Rightarrow> e' = e | Some u \<Rightarrow> \<exists>c. e' = stamp c u)
      = (if column_name \<in> fst ` set e
         then \<exists>c. e' = stamp c (filter (\<lambda>(k, v). k \<noteq> column_name) e) else e' = e)" for e e'
    by (simp add: without_def)
  have copy_part: ?thesis if "new_column \<noteq> ''PartitionKey'' \<and> new_column \<noteq> ''RowKey''"
    and "column_name \<noteq> ''PartitionKey'' \<and> column_name \<noteq> ''RowKey''"
    using gen [of "copied old_column new_column"] gen [of "without column_name"]
      key_of_copied [of new_column] key_of_without [of column_name] that
    unfolding c d R1 R2 by blast
  have copy_only: ?thesis if "new_column \<noteq> ''PartitionKey'' \<and> new_column \<noteq> ''RowKey''"
    and "\<not> (column_name \<noteq> ''PartitionKey'' \<and> column_name \<noteq> ''RowKey'')"
    using gen [of "copied old_column new_column"] key_of_copied [of new_column] that
    unfolding c R1 by blast
  have delete_only: ?thesis if "\<not> (new_column \<noteq> ''PartitionKey'' \<and> new_column \<noteq> ''RowKey'')"
    and "column_name \<noteq> ''PartitionKey'' \<and> column_name \<noteq> ''RowKey''"
    using gen [of "without column_name"] key_of_without [of column_name] that
    unfolding d R2 by blast
  show ?thesis
    using copy_part copy_only delete_only by blast
qed

theorem column_operations_frame_witness:
  "outage store_mixed = None \<and> tables store_mixed ''T'' = Some rows_mixed \<and> wf_table rows_mixed
   \<and> ''Nick'' \<noteq> ''PartitionKey'' \<and> ''Nick'' \<noteq> ''RowKey''
   \<and> ''Name'' \<noteq> ''PartitionKey'' \<and> ''Name'' \<noteq> ''RowKey''
   \<and> fst (copy_column ''T'' ''Name'' ''Nick'' store_mixed) = Inr ()
   \<and> since store_mixed (snd (copy_column ''T'' ''Name'' ''Nick'' store_mixed))
       = [UpdateEntity ''T''
            [(''PartitionKey'', Str ''A''), (''RowKey'', Str ''1''), (''Name'', Str ''x''),
             (''Timestamp'', Num 0), (''Nick'', Str ''x'')]]
   \<and> fst (delete_column ''T'' ''Name'' store_mixed) = Inr ()
   \<and> since store_mixed (snd (delete_column ''T'' ''Name'' store_mixed))
       = [UpdateEntity ''T''
            [(''PartitionKey'', Str ''A''), (''RowKey'', Str ''1''), (''Timestamp'', Num 0)]]"
proof -
  have h: "outage store_mixed = None" "tables store_mixed ''T'' = Some rows_mixed"
    "wf_table rows_mixed"
    by (simp_all add: store_mixed_def rows_mixed_def wf_table_def key_of_def)
  have c: "''Nick'' \<noteq> ''PartitionKey'' \<and> ''Nick'' \<noteq> ''RowKey''"
    "''Name'' \<noteq> ''PartitionKey'' \<and> ''Name'' \<noteq> ''RowKey''"
    by simp_all
  have u: "List.map_filter (copied ''Name'' ''Nick'') rows_mixed
      = [[(''PartitionKey'', Str ''A''), (''RowKey'', Str ''1''), (''Name'', Str ''x''),
          (''Timestamp'', Num 0), (''Nick'', Str ''x'')]]"
    "List.map_filter (without ''Name'') rows_mixed
      = [[(''PartitionKey'', Str ''A''), (''RowKey'', Str ''1''), (''Timestamp'', Num 0)]]"
    by (simp_all add: rows_mixed_def map_filter_simps copied_def without_def)
  from column_operations_frame [OF h, of "''Nick''" "''Name''" "''Name''"] h c
  show ?thesis unfolding u by simp
qed

text \<open>
  Claim C8 as stated, at \<^verbatim>\<open>copy_column\<close> from \<open>Name\<close> into \<^verbatim>\<open>RowKey\<close> on a table
  where the first of two entities has the column \<open>Name\<close>: the entity to write back has
  another key, which the table does not hold; the update is refused, the call fails, and
  the entity that has the column is not written back.
\<close>

theorem copy_column_into_key_counterexample:
  "outage store_mixed = None \<and> tables store_mixed ''T'' = Some rows_mixed \<and> wf_table rows_mixed
   \<and> map (\<lambda>e. map_of e ''Name'') rows_mixed = [Some (Str ''x''), None]
   \<and> fst (copy_column ''T'' ''Name'' ''RowKey'' store_mixed) = Inl NotFound
   \<and> since store_mixed (snd (copy_column ''T'' ''Name'' ''RowKey'' store_mixed)) = []
   \<and> tables (snd (copy_column ''T'' ''Name'' ''RowKey'' store_mixed)) ''T'' = Some rows_mixed"
  by (simp add: copy_column_def svc_query_entities_def svc_update_entity_def apply_update_def
      key_of_def since_def and_then_def return_def store_mixed_def rows_mixed_def wf_table_def)

section \<open>The steps of renaming a table\<close>

lemma inserted_inserts [simp]: "inserted (map (InsertEntity t) es) = es"
  by (induction es) (simp_all add: inserted_def)

lemma query_entities_cases:
  assumes "query_entities t s = (r, s')"
  shows "advances s [] s' \<and> (\<forall>df. r = Inr df \<longrightarrow> (\<exists>rows. tables s t = Some rows \<and> df = DataFrame rows))"
  using assms unfolding query_entities_def
proof (cases rule: and_then_cases)
  case (fail e)
  with svc_query_entities_cases [OF fail(1)] show ?thesis by auto
next
  case (ok x s1)
  with svc_query_entities_cases [OF ok(1)] show ?thesis by (auto simp: return_def)
qed

lemma delete_all_rows_batch_empty_cases:
  assumes "delete_all_rows_batch t s = (r, s')" "tables s t = Some []"
  shows "advances s [] s'"
  using assms(1) unfolding delete_all_rows_batch_def
proof (cases rule: and_then_cases)
  case (fail e)
  with svc_query_entities_cases [OF fail(1)] show ?thesis by auto
next
  case (ok x s1)
  with svc_query_entities_cases [OF ok(1)] assms(2) show ?thesis
    by (auto simp: return_def)
qed

lemma insert_rows_cases:
  assumes "insert_rows t rows s = (r, s')"
  shows "\<exists>es. advances s (map (InsertEntity t) es) s'
     \<and> prefix (map Inr es) (map new_entity rows)
     \<and> (if r = Inr () then length es = length rows else length es < length rows)"
  using assms
proof (induction rows arbitrary: s)
  case Nil
  then show ?case by (auto simp: return_def intro!: exI [of _ "[]"])
next
  case (Cons row rows)
  show ?case
  proof (cases "new_entity row")
    case (Inl e)
    with Cons.prems show ?thesis by (auto simp: raise_def intro!: exI [of _ "[]"])
  next
    case (Inr entity)
    with Cons.prems have "and_then (svc_insert_entity t entity) (\<lambda>_. insert_rows t rows) s = (r, s')"
      by simp
    then show ?thesis
    proof (cases rule: and_then_cases)
      case (fail e)
      with svc_insert_entity_cases [OF fail(1)] show ?thesis
        by (auto intro!: exI [of _ "[]"])
    next
      case (ok x s1)
      with svc_insert_entity_cases [OF ok(1)] have a1: "advances s [InsertEntity t entity] s1"
        by auto
      from Cons.IH [OF ok(2)] obtain es where es: "advances s1 (map (InsertEntity t) es) s'"
        "prefix (map Inr es) (map new_entity rows)"
        "if r = Inr () then length es = length rows else length es < length rows"
        by blast
      from advances_trans [OF a1 es(1)] es(2,3) Inr show ?thesis
        by (intro exI [of _ "entity # es"]) (auto split: if_splits)
    qed
  qed
qed

lemma length_to_dict_records [simp]: "length (to_dict_records df) = n_rows df"
  by (simp add: to_dict_records_def)

lemma write_to_empty_table_cases:
  assumes run: "write_df_to_azure_table t df True s = (r, s')" and empty: "tables s t = Some []"
  shows "\<exists>es. advances s (map (InsertEntity t) es) s'
     \<and> (if r = Inr () then length es = n_rows df else length es < n_rows df \<or> es = [])"
  using run unfolding write_df_to_azure_table_def table_exists_def
proof (cases rule: and_then_cases)
  case (fail e)
  with svc_exists_cases [OF fail(1)] show ?thesis by (auto intro!: exI [of _ "[]"])
next
  case (ok x s1)
  from svc_exists_cases [OF ok(1)] empty have s1: "advances s [] s1" and x: "x" by auto
  from ok(2) x have "and_then (delete_all_rows_batch t)
      (\<lambda>_. insert_rows t (to_dict_records df)) s1 = (r, s')" by simp
  then show ?thesis
  proof (cases rule: and_then_cases)
    case (fail e)
    from delete_all_rows_batch_empty_cases [OF fail(1)] advances_Nil [OF s1] empty fail(2)
    have "advances s1 [] s'" by simp
    with advances_trans [OF s1 this] fail(2) show ?thesis by (auto intro!: exI [of _ "[]"])
  next
    case (ok y s2)
    from delete_all_rows_batch_empty_cases [OF ok(1)] advances_Nil [OF s1] empty
    have "advances s1 [] s2" by simp
    from advances_trans [OF s1 this] have s2: "advances s [] s2" by simp
    from insert_rows_cases [OF ok(2)] obtain es where
      "advances s2 (map (InsertEntity t) es) s'"
      "if r = Inr () then length es = length (to_dict_records df)
       else length es < length (to_dict_records df)" by blast
    with advances_trans [OF s2 this(1)] show ?thesis
      by (intro exI [of _ es]) (auto split: if_splits)
  qed
qed

lemma dom_effect_insert: "dom (fst (effect (InsertEntity t e) st)) = dom (fst st)"
  by (cases st) (auto split: option.splits)

lemma dom_fold_inserts:
  "dom (fst (fold effect (map (InsertEntity t) es) st)) = dom (fst st)"
  by (induction es arbitrary: st) (simp_all add: dom_effect_insert)

lemma advances_inserts_dom:
  "advances s (map (InsertEntity t) es) s' \<Longrightarrow> dom (tables s') = dom (tables s)"
  using dom_fold_inserts [of t es "(tables s, clock s)"]
  by (simp add: advances_def) (metis fst_conv)

lemma n_rows_DataFrame [simp]: "n_rows (DataFrame rows) = length rows"
  by (simp add: DataFrame_def Let_def)

lemma drop_column_n_rows: "drop_column c df = Inr df' \<Longrightarrow> n_rows df' = n_rows df"
  by (auto simp: drop_column_def split: if_splits)

lemma rename_table_trace:
  assumes run: "rename_table old_name new_name s = (r, s')"
  defines "d \<equiv> (if new_name \<in> dom (tables s) then [DeleteTable new_name] else [])"
  shows "(\<exists>e. r = Inl e \<and> advances s [] s')
     \<or> (\<exists>e. r = Inl e \<and> advances s d s')
     \<or> (\<exists>e es. r = Inl e \<and> advances s (d @ [CreateTable new_name] @ map (InsertEntity new_name) es) s')
     \<or> (\<exists>es rows. r = Inr () \<and> tables s old_name = Some rows \<and> length es = length rows
          \<and> advances s (d @ [CreateTable new_name] @ map (InsertEntity new_name) es
                          @ [DeleteTable old_name]) s')"
  using run unfolding rename_table_def
proof (cases rule: and_then_cases)
  case (fail e)
  with delete_table_if_exists_cases [OF fail(1)] show ?thesis by auto
next
  case (ok x1 s1)
  from delete_table_if_exists_cases [OF ok(1)] have s1: "advances s d s1" by (simp add: d_def)
  then have t1: "new_name \<notin> dom (tables s1)"
    by (auto simp: advances_def d_def split: if_splits)
  from ok(2) show ?thesis
  proof (cases rule: and_then_cases)
    case (fail e)
    with create_table_cases [OF fail(1)] advances_trans [OF s1, of "[]" s'] show ?thesis by auto
  next
    case (ok x2 s2)
    from create_table_cases [OF ok(1)] t1 have "advances s1 [CreateTable new_name] s2" by auto
    from advances_trans [OF s1 this] have s2: "advances s (d @ [CreateTable new_name]) s2" .
    then have t2: "tables s2 = (tables s)(new_name \<mapsto> [])"
      by (auto simp: advances_def d_def split: if_splits)
    have stop: ?thesis if "advances s2 (map (InsertEntity new_name) es) s'" "r = Inl e" for es e
      using advances_trans [OF s2 that(1)] that(2) by auto
    from ok(2) show ?thesis
    proof (cases rule: and_then_cases)
      case (fail e)
      with query_entities_cases [OF fail(1)] stop [of "[]"] show ?thesis by simp
    next
      case (ok df s3)
      from query_entities_cases [OF ok(1)] obtain rows where s3: "advances s2 [] s3"
        and rows: "tables s2 old_name = Some rows" and df: "df = DataFrame rows" by auto
      show ?thesis
      proof (cases "drop_column ''Timestamp'' df")
        case (Inl e)
        with ok(2) have "r = Inl e" "s' = s3" by (simp_all add: raise_def)
        with s3 stop [of "[]"] show ?thesis by simp
      next
        case (Inr df')
        then have n: "n_rows df' = length rows" using df by (simp add: drop_column_n_rows)
        from Inr df have ne: "rows \<noteq> []" by (auto simp: drop_column_empty_frame)
        with rows t2 have diff: "old_name \<noteq> new_name" by auto
        with rows t2 have src: "tables s old_name = Some rows" by simp
        from Inr ok(2) have "and_then (write_df_to_azure_table new_name df' True)
            (\<lambda>_. delete_table_if_exists old_name) s3 = (r, s')" by simp
        then show ?thesis
        proof (cases rule: and_then_cases)
          case (fail e)
          from write_to_empty_table_cases [OF fail(1)] advances_Nil [OF s3] t2
          obtain es where "advances s3 (map (InsertEntity new_name) es) s'" by auto
          with advances_trans [OF s3 this] fail(2) stop [of es] show ?thesis by simp
        next
          case (ok x4 s4)
          from write_to_empty_table_cases [OF ok(1)] advances_Nil [OF s3] t2 n
          obtain es where es: "advances s3 (map (InsertEntity new_name) es) s4"
            "length es = length rows" by auto
          from advances_trans [OF s3 es(1)] have a4: "advances s2 (map (InsertEntity new_name) es) s4"
            by simp
          from advances_inserts_dom [OF a4] t2 src have t4: "old_name \<in> dom (tables s4)" by auto
          from delete_table_if_exists_cases [OF ok(2)] show ?thesis
          proof
            assume "r = Inr () \<and> advances s4
              (if old_name \<in> dom (tables s4) then [DeleteTable old_name] else []) s'"
            with t4 have "r = Inr ()" "advances s4 [DeleteTable old_name] s'" by simp_all
            with advances_trans [OF advances_trans [OF s2 a4] this(2)] src es(2) show ?thesis
              by auto
          next
            assume "(\<exists>e. r = Inl e) \<and> advances s4 [] s'"
            with advances_trans [OF a4, of "[]" s'] stop [of es] show ?thesis by auto
          qed
        qed
      qed
    qed
  qed
qed

lemma inserted_Cons [simp]: "inserted (ev # evs) = inserts_of ev @ inserted evs"
  by (simp add: inserted_def)

lemma rename_table_journal_shape:
  assumes "d = (if c then [DeleteTable n] else [])"
    and "script = (\<lambda>es. d @ [CreateTable n] @ map (InsertEntity n) es @ [DeleteTable old])"
  shows "prefix [] (script (inserted [])) \<and> [] \<noteq> script (inserted [])"
    and "prefix d (script (inserted d)) \<and> d \<noteq> script (inserted d)"
    and "prefix (d @ [CreateTable n] @ map (InsertEntity n) es)
           (script (inserted (d @ [CreateTable n] @ map (InsertEntity n) es)))
         \<and> d @ [CreateTable n] @ map (InsertEntity n) es
           \<noteq> script (inserted (d @ [CreateTable n] @ map (InsertEntity n) es))"
    and "script (inserted (d @ [CreateTable n] @ map (InsertEntity n) es @ [DeleteTable old]))
         = d @ [CreateTable n] @ map (InsertEntity n) es @ [DeleteTable old]
         \<and> inserted (d @ [CreateTable n] @ map (InsertEntity n) es @ [DeleteTable old]) = es"
proof -
  have d: "inserted d = []" by (simp add: assms(1))
  have i3: "inserted (d @ [CreateTable n] @ map (InsertEntity n) es) = es" by (simp add: d)
  have i4: "inserted (d @ [CreateTable n] @ map (InsertEntity n) es @ [DeleteTable old]) = es"
    by (simp add: d)
  show "prefix [] (script (inserted [])) \<and> [] \<noteq> script (inserted [])"
    by (simp add: assms(2))
  show "prefix d (script (inserted d)) \<and> d \<noteq> script (inserted d)"
    unfolding d by (simp add: assms(2))
  show "prefix (d @ [CreateTable n] @ map (InsertEntity n) es)
           (script (inserted (d @ [CreateTable n] @ map (InsertEntity n) es)))
         \<and> d @ [CreateTable n] @ map (InsertEntity n) es
           \<noteq> script (inserted (d @ [CreateTable n] @ map (InsertEntity n) es))"
    unfolding i3 by (simp add: assms(2))
  show "script (inserted (d @ [CreateTable n] @ map (InsertEntity n) es @ [DeleteTable old]))
         = d @ [CreateTable n] @ map (InsertEntity n) es @ [DeleteTable old]
         \<and> inserted (d @ [CreateTable n] @ map (InsertEntity n) es @ [DeleteTable old]) = es"
    unfolding i4 by (simp add: assms(2))
qed

text \<open>
  Claim C9.  Whatever the store and whenever the service fails, the changes that
  \<^verbatim>\<open>rename_table\<close> makes are an initial segment of its script: the destination deleted
  if it exists, then created, then one insert for each entity, then the source deleted,
  in this order and with no step left out.  The call returns normally exactly when the
  whole script has been performed, and then the inserts are as many as the entities of
  the source; when it fails, the store is what the changes performed so far make of
  the initial store: nothing is undone and nothing more is done.
\<close>

theorem rename_table_steps:
  "advances s (since s (snd (rename_table old_name new_name s))) (snd (rename_table old_name new_name s))
   \<and> prefix (since s (snd (rename_table old_name new_name s)))
        (rename_script s old_name new_name
           (inserted (since s (snd (rename_table old_name new_name s)))))
   \<and> (fst (rename_table old_name new_name s) = Inr () \<longleftrightarrow>
        since s (snd (rename_table old_name new_name s))
        = rename_script s old_name new_name
            (inserted (since s (snd (rename_table old_name new_name s)))))
   \<and> (fst (rename_table old_name new_name s) = Inr () \<longrightarrow>
        map_option length (tables s old_name)
        = Some (length (inserted (since s (snd (rename_table old_name new_name s))))))"
proof -
  obtain r s' where run: "rename_table old_name new_name s = (r, s')" by force
  define d where "d = (if new_name \<in> dom (tables s) then [DeleteTable new_name] else [])"
  define script where "script = (\<lambda>es. d @ [CreateTable new_name] @ map (InsertEntity new_name) es
    @ [DeleteTable old_name])"
  have script: "rename_script s old_name new_name = script"
    by (rule ext) (simp add: rename_script_def script_def d_def)
  note shape = rename_table_journal_shape [OF d_def script_def]
  have stopped: "advances s (since s s') s' \<and> prefix (since s s') (script (inserted (since s s')))
     \<and> (r = Inr () \<longleftrightarrow> since s s' = script (inserted (since s s')))
     \<and> (r = Inr () \<longrightarrow> map_option length (tables s old_name) = Some (length (inserted (since s s'))))"
    if "advances s evs s'" "r = Inl e" "prefix evs (script (inserted evs)) \<and> evs \<noteq> script (inserted evs)"
    for evs e
  proof -
    have "since s s' = evs" using that(1) by (simp add: since_append advances_journal)
    with that show ?thesis by simp
  qed
  have "advances s (since s s') s' \<and> prefix (since s s') (script (inserted (since s s')))
     \<and> (r = Inr () \<longleftrightarrow> since s s' = script (inserted (since s s')))
     \<and> (r = Inr () \<longrightarrow> map_option length (tables s old_name) = Some (length (inserted (since s s'))))"
    using rename_table_trace [OF run, folded d_def]
  proof (elim disjE exE conjE)
    fix e assume "r = Inl e" "advances s [] s'"
    from stopped [OF this(2,1) shape(1)] show ?thesis .
  next
    fix e assume "r = Inl e" "advances s d s'"
    from stopped [OF this(2,1) shape(2)] show ?thesis .
  next
    fix e es assume "r = Inl e"
      "advances s (d @ [CreateTable new_name] @ map (InsertEntity new_name) es) s'"
    from stopped [OF this(2,1) shape(3)] show ?thesis .
  next
    fix es rows
    assume r: "r = Inr ()" and rows: "tables s old_name = Some rows" "length es = length rows"
      and a: "advances s (d @ [CreateTable new_name] @ map (InsertEntity new_name) es
                          @ [DeleteTable old_name]) s'"
    define full where "full = d @ [CreateTable new_name] @ map (InsertEntity new_name) es
                          @ [DeleteTable old_name]"
    have sn: "since s s' = full"
      using a by (simp add: since_append advances_journal full_def)
    from shape(4) [of es] have ins: "inserted full = es" and sc: "script es = full"
      unfolding full_def by metis+
    show ?thesis
      unfolding sn ins sc using a r rows by (simp add: full_def)
  qed
  then show ?thesis unfolding run script by simp
qed

lemmas eval_rename = rename_table_def delete_table_if_exists_def svc_delete_table_def
  query_entities_def DataFrame_def drop_column_def write_df_to_azure_table_def cell_def
  svc_insert_entity_def eval_store

theorem rename_table_steps_witness:
  "fst (rename_table ''T'' ''T2'' store_two) = Inr ()
   \<and> since store_two (snd (rename_table ''T'' ''T2'' store_two))
       = rename_script store_two ''T'' ''T2''
           (inserted (since store_two (snd (rename_table ''T'' ''T2'' store_two))))
   \<and> map_option length (tables store_two ''T'')
       = Some (length (inserted (since store_two (snd (rename_table ''T'' ''T2'' store_two)))))"
proof -
  have h: "fst (rename_table ''T'' ''T2'' store_two) = Inr ()"
    by (simp add: eval_rename store_two_def rows_two_def upt_rec)
  from rename_table_steps [of store_two "''T''" "''T2''"] h show ?thesis by blast
qed

section \<open>Renaming a table\<close>

lemma map_of_fold_update:
  "distinct (map fst row) \<Longrightarrow>
   map_of (fold (\<lambda>(key, value). AList.update key value) row init) = map_of init ++ map_of row"
proof (induction row arbitrary: init)
  case Nil
  then show ?case by simp
next
  case (Cons p row)
  obtain k v where p: "p = (k, v)" by (cases p)
  from Cons.prems p have k: "k \<notin> dom (map_of row)" and d: "distinct (map fst row)"
    by (auto simp: dom_map_of_conv_image_fst)
  have "map_of (fold (\<lambda>(key, value). AList.update key value) (p # row) init)
      = map_of (AList.update k v init) ++ map_of row"
    using Cons.IH [OF d] by (simp add: p)
  also have "\<dots> = ((map_of init)(k \<mapsto> v)) ++ map_of row"
    by (simp add: update_conv')
  also have "\<dots> = (map_of init ++ map_of row)(k \<mapsto> v)"
    using k by (rule map_add_upd_left)
  also have "\<dots> = map_of init ++ map_of (p # row)"
    by (simp add: p)
  finally show ?case .
qed

lemma new_entity_map_of:
  assumes "distinct (map fst row)" "map_of row ''PartitionKey'' = Some pk"
    "map_of row ''RowKey'' = Some rk"
  shows "\<exists>entity. new_entity row = Inr entity \<and> map_of entity = map_of row"
proof -
  let ?init = "AList.update ''RowKey'' rk (AList.update ''PartitionKey'' pk [])"
  have "map_of ?init ++ map_of row = map_of row"
  proof (rule ext)
    fix x
    show "(map_of ?init ++ map_of row) x = map_of row x"
      using assms(2,3) by (cases "map_of row x") (auto simp: map_add_def update_conv')
  qed
  with assms show ?thesis
    by (simp add: new_entity_def getitem_def map_of_fold_update)
qed

lemma map_of_cells:
  "map_of (map (\<lambda>c. (c, f c)) cs) x = (if x \<in> set cs then Some (f x) else None)"
  by (induction cs) auto

lemma DataFrame_records:
  assumes ts: "''Timestamp'' \<in> set (concat (map (map fst) rows))"
  shows "\<exists>df cs. drop_column ''Timestamp'' (DataFrame rows) = Inr df
     \<and> set cs = set (concat (map (map fst) rows)) - {''Timestamp''} \<and> distinct cs
     \<and> to_dict_records df = map (\<lambda>e. map (\<lambda>c. (c, cell e c)) cs) rows"
proof -
  define cols where "cols = rev (remdups (rev (concat (map (map fst) rows))))"
  define cs where "cs = filter (\<lambda>c. c \<noteq> ''Timestamp'') cols"
  define df where "df = \<lparr>n_rows = length rows,
        series = map (\<lambda>c. (c, map (\<lambda>e. cell e c) rows)) cs\<rparr>"
  have cols: "set cols = set (concat (map (map fst) rows))" "distinct cols"
    by (simp_all add: cols_def)
  have ser: "series (DataFrame rows) = map (\<lambda>c. (c, map (\<lambda>e. cell e c) rows)) cols"
    by (simp add: DataFrame_def cols_def Let_def)
  have del: "AList.delete ''Timestamp'' (map (\<lambda>c. (c, map (\<lambda>e. cell e c) rows)) cols)
      = map (\<lambda>c. (c, map (\<lambda>e. cell e c) rows)) cs"
    unfolding cs_def by (induction cols) auto
  have "''Timestamp'' \<in> fst ` set (series (DataFrame rows))"
    using ts cols by (force simp: ser)
  then have d: "drop_column ''Timestamp'' (DataFrame rows) = Inr df"
    by (simp add: drop_column_def df_def ser del DataFrame_def Let_def cols_def [symmetric])
  have "to_dict_records df = map (\<lambda>i. map (\<lambda>c. (c, cell (rows ! i) c)) cs) [0..<length rows]"
    by (simp add: to_dict_records_def df_def comp_def)
  also have "\<dots> = map (\<lambda>e. map (\<lambda>c. (c, cell e c)) cs) rows"
    by (rule nth_equalityI) simp_all
  finally have r: "to_dict_records df = map (\<lambda>e. map (\<lambda>c. (c, cell e c)) cs) rows" .
  have "set cs = set (concat (map (map fst) rows)) - {''Timestamp''}" "distinct cs"
    using cols by (auto simp: cs_def)
  with d r show ?thesis by blast
qed

lemma record_content:
  assumes "distinct cs" "set cs = set (map fst e) - {''Timestamp''}"
  shows "map_of (map (\<lambda>c. (c, cell e c)) cs) = content e"
proof (rule ext)
  fix x
  show "map_of (map (\<lambda>c. (c, cell e c)) cs) x = content e x"
  proof (cases "x \<in> set cs")
    case True
    with assms(2) have x: "x \<in> fst ` set e" "x \<noteq> ''Timestamp''" by auto
    then have "map_of e x \<noteq> None" by (simp add: map_of_eq_None_iff)
    then obtain v where "map_of e x = Some v" by blast
    with True x show ?thesis by (simp add: map_of_cells content_def cell_def)
  next
    case False
    with assms(2) have "x = ''Timestamp'' \<or> map_of e x = None"
      by (auto simp: map_of_eq_None_iff)
    with False show ?thesis by (auto simp: map_of_cells content_def)
  qed
qed

lemma content_stamp [simp]: "content (stamp c e) = content e"
  by (simp add: content_def stamp_def update_conv')

lemma key_of_content:
  assumes "content a = content b"
  shows "key_of a = key_of b"
proof -
  have "map_of x k = content x k" if "k \<noteq> ''Timestamp''" for x k
    using that by (simp add: content_def)
  then have "map_of a ''PartitionKey'' = map_of b ''PartitionKey''"
    "map_of a ''RowKey'' = map_of b ''RowKey''"
    using assms by simp_all
  then show ?thesis by (simp add: key_of_def split: option.splits)
qed

lemma content_of_map_of: "map_of a = content b \<Longrightarrow> content a = content b"
  by (simp add: content_def)

lemma tables_perform_insert:
  "tables s t = Some rows \<Longrightarrow>
   tables (perform (InsertEntity t e) s) = (tables s)(t \<mapsto> rows @ [stamp (clock s) e])"
  by (simp add: perform_def)

lemma insert_rows_ok:
  assumes "outage s = None" "tables s t = Some pre" "map new_entity rows = map Inr es"
    "list_all (\<lambda>e. key_of e \<noteq> None) es" "distinct (map key_of (pre @ es))"
  shows "\<exists>s' post. insert_rows t rows s = (Inr (), s') \<and> outage s' = None
     \<and> tables s' = (tables s)(t \<mapsto> pre @ post)
     \<and> journal s' = journal s @ map (InsertEntity t) es
     \<and> map content post = map content es \<and> map key_of post = map key_of es"
  using assms
proof (induction rows arbitrary: s pre es)
  case Nil
  have "(tables s)(t \<mapsto> pre) = tables s" using Nil.prems(2) by auto
  with Nil.prems show ?case
    by (intro exI [of _ s] exI [of _ "[]"]) (simp add: return_def)
next
  case (Cons row rows)
  from Cons.prems(3) obtain e es' where es: "es = e # es'" "new_entity row = Inr e"
    "map new_entity rows = map Inr es'" by (cases es) auto
  from Cons.prems(4,5) es obtain k where k: "key_of e = Some k"
    "Some k \<notin> set (map key_of pre)" by auto
  define s1 where "s1 = perform (InsertEntity t e) s"
  have ins: "svc_insert_entity t e s = (Inr (), s1)"
    using Cons.prems(1,2) k by (simp add: svc_insert_entity_def s1_def)
  have s1: "outage s1 = None" "tables s1 = (tables s)(t \<mapsto> pre @ [stamp (clock s) e])"
    "journal s1 = journal s @ [InsertEntity t e]"
    using Cons.prems(1,2) by (simp_all add: s1_def tables_perform_insert)
  have "\<exists>s' post. insert_rows t rows s1 = (Inr (), s') \<and> outage s' = None
     \<and> tables s' = (tables s1)(t \<mapsto> (pre @ [stamp (clock s) e]) @ post)
     \<and> journal s' = journal s1 @ map (InsertEntity t) es'
     \<and> map content post = map content es' \<and> map key_of post = map key_of es'"
    using s1 es Cons.prems(4,5) by (intro Cons.IH) simp_all
  then obtain s' post where "insert_rows t rows s1 = (Inr (), s')" "outage s' = None"
    "tables s' = (tables s1)(t \<mapsto> (pre @ [stamp (clock s) e]) @ post)"
    "journal s' = journal s1 @ map (InsertEntity t) es'"
    "map content post = map content es'" "map key_of post = map key_of es'"
    by blast
  with s1 es show ?case
    by (intro exI [of _ s'] exI [of _ "stamp (clock s) e # post"])
       (simp add: and_then_Inr [of "svc_insert_entity t e", OF ins])
qed

lemma write_df_to_azure_table_up:
  assumes "outage s = None" "tables s t = Some []"
  shows "write_df_to_azure_table t df True s = insert_rows t (to_dict_records df) s"
proof -
  have "svc_exists t s = (Inr True, s)" using assms by (simp add: svc_exists_up domI)
  then show ?thesis
    using assms
    by (simp add: write_df_to_azure_table_def table_exists_def and_then_Inr [of "svc_exists t"]
        and_then_Inr [of "delete_all_rows_batch t", OF delete_all_rows_batch_empty])
qed

lemma map_Inr_witness:
  "\<forall>x\<in>set xs. \<exists>y. f x = Inr y \<and> P x y \<Longrightarrow> \<exists>ys. map f xs = map Inr ys \<and> list_all2 P xs ys"
proof (induction xs)
  case Nil
  then show ?case by simp
next
  case (Cons x xs)
  then obtain y ys where "f x = Inr y" "P x y" "map f xs = map Inr ys" "list_all2 P xs ys"
    by auto
  then show ?case by (intro exI [of _ "y # ys"]) simp
qed

lemma uniform_keys:
  assumes "uniform rows" "e \<in> set rows"
  shows "set (concat (map (map fst) rows)) = set (map fst e)" "distinct (map fst e)"
proof -
  from assms have all: "\<forall>r\<in>set rows. set (map fst r) = set (map fst (hd rows))"
    and d: "distinct (map fst e)"
    by (auto simp: uniform_def list_all_iff)
  have "set (concat (map (map fst) rows)) = (\<Union>r\<in>set rows. set (map fst r))"
    by simp
  also have "\<dots> = (\<Union>r\<in>set rows. set (map fst e))"
    using all assms(2) by (intro SUP_cong refl) (simp only:)
  also have "\<dots> = set (map fst e)"
    using assms(2) by blast
  finally show "set (concat (map (map fst) rows)) = set (map fst e)" .
  from d show "distinct (map fst e)" .
qed

lemma scanned_entities:
  assumes ne: "rows \<noteq> []" and wf: "wf_table rows" and uni: "uniform rows"
    and ts: "''Timestamp'' \<in> fst ` set (hd rows)"
  shows "\<exists>df es. drop_column ''Timestamp'' (DataFrame rows) = Inr df
     \<and> map new_entity (to_dict_records df) = map Inr es
     \<and> list_all2 (\<lambda>e entity. map_of entity = content e) rows es"
proof -
  from ne have hd: "hd rows \<in> set rows" by simp
  from uniform_keys(1) [OF uni hd] ts
  have "''Timestamp'' \<in> set (concat (map (map fst) rows))" by simp
  from DataFrame_records [OF this] obtain df cs where
    df: "drop_column ''Timestamp'' (DataFrame rows) = Inr df"
    and cs: "set cs = set (concat (map (map fst) rows)) - {''Timestamp''}" "distinct cs"
    and recs: "to_dict_records df = map (\<lambda>e. map (\<lambda>c. (c, cell e c)) cs) rows"
    by blast
  have "\<forall>e\<in>set rows. \<exists>entity. new_entity (map (\<lambda>c. (c, cell e c)) cs) = Inr entity
      \<and> map_of entity = content e"
  proof
    fix e assume e: "e \<in> set rows"
    let ?row = "map (\<lambda>c. (c, cell e c)) cs"
    have m: "map_of ?row = content e"
      using cs uniform_keys [OF uni e] by (intro record_content) simp_all
    from wf e obtain pk rk where "key_of e = Some (pk, rk)"
      by (auto simp: wf_table_def list_all_iff)
    then have "map_of e ''PartitionKey'' = Some pk" "map_of e ''RowKey'' = Some rk"
      by (auto simp: key_of_def split: option.splits)
    then have "map_of ?row ''PartitionKey'' = Some pk" "map_of ?row ''RowKey'' = Some rk"
      unfolding m by (simp_all add: content_def)
    moreover have "distinct (map fst ?row)" using cs(2) by (simp add: comp_def)
    ultimately obtain entity where "new_entity ?row = Inr entity" "map_of entity = map_of ?row"
      using new_entity_map_of by blast
    with m show "\<exists>entity. new_entity ?row = Inr entity \<and> map_of entity = content e" by simp
  qed
  then have "\<exists>es. map (\<lambda>e. new_entity (map (\<lambda>c. (c, cell e c)) cs)) rows = map Inr es
      \<and> list_all2 (\<lambda>e entity. map_of entity = content e) rows es"
    by (rule map_Inr_witness)
  with df recs show ?thesis by (auto simp: comp_def)
qed

lemma batches_Cons [simp]: "batches (ev # evs) = batch_of ev @ batches evs"
  by (simp add: batches_def)

lemma batches_inserts [simp]: "batches (map (InsertEntity t) es) = []"
  by (induction es) simp_all

lemma rename_script_facts:
  "batches (rename_script s old_name new_name es) = []"
  "inserted (rename_script s old_name new_name es) = es"
  by (simp_all add: rename_script_def)

lemma rename_table_copies:
  assumes up: "outage s = None" and src: "tables s old_name = Some rows" and ne: "rows \<noteq> []"
    and diff: "old_name \<noteq> new_name" and wf: "wf_table rows" and uni: "uniform rows"
    and ts: "''Timestamp'' \<in> fst ` set (hd rows)"
  shows "\<exists>s' es post. rename_table old_name new_name s = (Inr (), s')
     \<and> tables s' = ((tables s)(new_name \<mapsto> post))(old_name := None)
     \<and> map content post = map content rows \<and> map key_of post = map key_of rows
     \<and> journal s' = journal s @ rename_script s old_name new_name es
     \<and> map content es = map content rows"
proof -
  define s1 where "s1 = (if new_name \<in> dom (tables s) then perform (DeleteTable new_name) s else s)"
  define s2 where "s2 = perform (CreateTable new_name) s1"
  have s1: "outage s1 = None" "new_name \<notin> dom (tables s1)"
    "journal s1 = journal s @ (if new_name \<in> dom (tables s) then [DeleteTable new_name] else [])"
    "(tables s1)(new_name \<mapsto> []) = (tables s)(new_name \<mapsto> [])"
    using up by (auto simp: s1_def tables_perform)
  have s2: "outage s2 = None" "journal s2 = journal s1 @ [CreateTable new_name]"
    "tables s2 = (tables s)(new_name \<mapsto> [])"
    using s1 by (simp_all add: s2_def tables_perform)
  have src2: "tables s2 old_name = Some rows" "tables s2 new_name = Some []"
    using s2 src diff by simp_all
  have a: "delete_table_if_exists new_name s = (Inr (), s1)"
    using up by (simp add: delete_table_if_exists_up s1_def)
  have b: "create_table new_name s1 = (Inr (), s2)"
    using s1 by (simp add: create_table_up s2_def)
  have c: "query_entities old_name s2 = (Inr (DataFrame rows), s2)"
    using s2 src2 by (simp add: query_entities_up)
  from scanned_entities [OF ne wf uni ts] obtain df es where
    df: "drop_column ''Timestamp'' (DataFrame rows) = Inr df"
    and es: "map new_entity (to_dict_records df) = map Inr es"
    and rel: "list_all2 (\<lambda>e entity. map_of entity = content e) rows es"
    by blast
  from rel have ces: "map content es = map content rows"
    by (induction rule: list_all2_induct) (simp_all add: content_of_map_of)
  from rel have kes: "map key_of es = map key_of rows"
    by (induction rule: list_all2_induct)
       (simp_all add: key_of_content [OF content_of_map_of])
  have des: "distinct (map key_of ([] @ es))"
    using wf kes by (simp add: wf_table_def)
  have "None \<notin> set (map key_of rows)"
    using wf by (auto simp: wf_table_def list_all_iff)
  then have "None \<notin> set (map key_of es)" unfolding kes .
  then have nes: "list_all (\<lambda>e. key_of e \<noteq> None) es"
    unfolding list_all_iff by (metis imageI list.set_map)
  have "\<exists>s' post. insert_rows new_name (to_dict_records df) s2 = (Inr (), s') \<and> outage s' = None
     \<and> tables s' = (tables s2)(new_name \<mapsto> [] @ post)
     \<and> journal s' = journal s2 @ map (InsertEntity new_name) es
     \<and> map content post = map content es \<and> map key_of post = map key_of es"
    using s2(1) src2(2) es nes des by (rule insert_rows_ok)
  then obtain s4 post where w: "insert_rows new_name (to_dict_records df) s2 = (Inr (), s4)"
    and s4: "outage s4 = None" "tables s4 = (tables s2)(new_name \<mapsto> post)"
      "journal s4 = journal s2 @ map (InsertEntity new_name) es"
    and post: "map content post = map content es" "map key_of post = map key_of es"
    by auto
  have w': "write_df_to_azure_table new_name df True s2 = (Inr (), s4)"
    using w s2(1) src2(2) by (simp add: write_df_to_azure_table_up)
  have old4: "old_name \<in> dom (tables s4)" using s4 src2 diff by auto
  define s5 where "s5 = perform (DeleteTable old_name) s4"
  have e: "delete_table_if_exists old_name s4 = (Inr (), s5)"
    using s4(1) old4 by (simp add: delete_table_if_exists_up s5_def)
  have run: "rename_table old_name new_name s = (Inr (), s5)"
    unfolding rename_table_def
    by (simp add: and_then_Inr [of "delete_table_if_exists new_name", OF a]
        and_then_Inr [of "create_table new_name", OF b]
        and_then_Inr [of "query_entities old_name", OF c] df
        and_then_Inr [of "write_df_to_azure_table new_name df True", OF w'] e)
  have t5: "tables s5 = ((tables s)(new_name \<mapsto> post))(old_name := None)"
    using s4 s2 by (simp add: s5_def tables_perform)
  have j5: "journal s5 = journal s @ rename_script s old_name new_name es"
    using s4 s2 s1 by (simp add: s5_def rename_script_def)
  from run t5 j5 post ces kes show ?thesis by auto
qed

text \<open>
  Claim C2, as the code has it.  With the service reachable, let the source table differ
  from the destination, satisfy the table invariant and hold at least one entity, and let
  its entities all have the same columns, \<^verbatim>\<open>Timestamp\<close> among them.  Then
  \<^verbatim>\<open>rename_table\<close> returns normally, the source table is gone, and the destination
  holds, in order, entities that say what the entities of the source said apart from the
  \<^verbatim>\<open>Timestamp\<close>, with the same \<^verbatim>\<open>PartitionKey\<close> and \<^verbatim>\<open>RowKey\<close>.  The copy is made by
  \<^verbatim>\<open>write_df_to_azure_table\<close>: the changes are the script of the renaming with one point
  insert for each entity, and no batch is committed.
\<close>

theorem rename_table_point_copies:
  assumes "outage s = None" "tables s old_name = Some rows" "rows \<noteq> []"
    "old_name \<noteq> new_name" "wf_table rows" "uniform rows" "''Timestamp'' \<in> fst ` set (hd rows)"
  shows "fst (rename_table old_name new_name s) = Inr ()
     \<and> tables (snd (rename_table old_name new_name s)) old_name = None
     \<and> (\<exists>post. tables (snd (rename_table old_name new_name s)) new_name = Some post
           \<and> map content post = map content rows \<and> map key_of post = map key_of rows)
     \<and> since s (snd (rename_table old_name new_name s))
         = rename_script s old_name new_name
             (inserted (since s (snd (rename_table old_name new_name s))))
     \<and> map content (inserted (since s (snd (rename_table old_name new_name s)))) = map content rows
     \<and> batches (since s (snd (rename_table old_name new_name s))) = []"
proof -
  from rename_table_copies [OF assms] obtain s' es post where
    run: "rename_table old_name new_name s = (Inr (), s')"
    and t: "tables s' = ((tables s)(new_name \<mapsto> post))(old_name := None)"
    and p: "map content post = map content rows" "map key_of post = map key_of rows"
    and j: "journal s' = journal s @ rename_script s old_name new_name es"
    and e: "map content es = map content rows"
    by blast
  have sn: "since s s' = rename_script s old_name new_name es"
    using j by (rule since_append)
  from t assms(4) have "tables s' old_name = None" "tables s' new_name = Some post" by simp_all
  with p e show ?thesis
    by (simp add: run sn rename_script_facts)
qed

theorem rename_table_point_copies_witness:
  "outage store_two = None \<and> tables store_two ''T'' = Some rows_two \<and> rows_two \<noteq> []
   \<and> ''T'' \<noteq> ''T2'' \<and> wf_table rows_two \<and> uniform rows_two
   \<and> ''Timestamp'' \<in> fst ` set (hd rows_two)
   \<and> fst (rename_table ''T'' ''T2'' store_two) = Inr ()
   \<and> tables (snd (rename_table ''T'' ''T2'' store_two)) ''T'' = None
   \<and> batches (since store_two (snd (rename_table ''T'' ''T2'' store_two))) = []"
proof -
  have h: "outage store_two = None" "tables store_two ''T'' = Some rows_two" "rows_two \<noteq> []"
    "''T'' \<noteq> ''T2''" "wf_table rows_two" "uniform rows_two"
    "''Timestamp'' \<in> fst ` set (hd rows_two)"
    by (simp_all add: store_two_def rows_two_def wf_table_def key_of_def uniform_def)
  from rename_table_point_copies [OF h] h show ?thesis by blast
qed

lemma str_nat_inj:
  assumes "str_nat i = str_nat j"
  shows "i = j"
proof (rule ccontr)
  assume ne: "i \<noteq> j"
  let ?w = "length (str_nat i)"
  have w: "0 < ?w" using str_nat_not_Nil by simp
  have i: "i < 10 ^ ?w" by (rule str_nat_bound)
  have j: "j < 10 ^ ?w" using str_nat_bound [of j] assms by simp
  have "fixed_width ?w i = str_nat i" using pad_fixed_width [OF i w] by simp
  moreover have "fixed_width ?w j = str_nat j" using pad_fixed_width [OF j w] assms by simp
  ultimately have eq: "fixed_width ?w i = fixed_width ?w j" using assms by simp
  from ne consider "i < j" | "j < i" by linarith
  then show False
  proof cases
    case 1
    from fixed_width_less [OF 1 j] eq show False by simp
  next
    case 2
    from fixed_width_less [OF 2 i] eq show False by simp
  qed
qed

lemma key_of_entity_150 [simp]: "key_of (entity_150 pk i) = Some (Str pk, Str (str_nat i))"
  by (simp add: entity_150_def key_of_def)

lemma distinct_entity_150: "distinct (map key_of (map (entity_150 pk) [m..<n]))"
  by (simp add: distinct_map comp_def inj_on_def str_nat_inj)

lemma wf_rows_150: "wf_table rows_150"
proof -
  have "distinct (map key_of rows_150)"
    unfolding rows_150_def map_append distinct_append
    using distinct_entity_150 [of "''A''" 0 100] distinct_entity_150 [of "''B''" 0 50]
    by auto
  moreover have "list_all (\<lambda>e. key_of e \<noteq> None) rows_150"
    by (auto simp: rows_150_def list_all_iff)
  ultimately show ?thesis by (simp add: wf_table_def)
qed

lemma hd_rows_150: "hd rows_150 = entity_150 ''A'' 0"
  by (simp add: rows_150_def upt_conv_Cons)

lemma uniform_rows_150: "uniform rows_150"
  unfolding uniform_def hd_rows_150
  by (auto simp: rows_150_def list_all_iff entity_150_def)

text \<open>
  Claim C2 as stated, on a source of 150 entities, 100 in partition \<open>A\<close> and 50 in
  partition \<open>B\<close>: the renaming succeeds with 150 point inserts and commits no batch, not
  a batch of 100 and then one of 50.
\<close>

theorem rename_table_no_batch_counterexample:
  "length rows_150 = 150 \<and> tables store_150 ''T'' = Some rows_150
   \<and> fst (rename_table ''T'' ''T2'' store_150) = Inr ()
   \<and> length (inserted (since store_150 (snd (rename_table ''T'' ''T2'' store_150)))) = 150
   \<and> batches (since store_150 (snd (rename_table ''T'' ''T2'' store_150))) = []
   \<and> length (batches (since store_150 (snd (rename_table ''T'' ''T2'' store_150)))) \<noteq> 2"
proof -
  have n: "length rows_150 = 150" by (simp add: rows_150_def)
  have h: "outage store_150 = None" "tables store_150 ''T'' = Some rows_150" "rows_150 \<noteq> []"
    "''T'' \<noteq> ''T2''" "''Timestamp'' \<in> fst ` set (hd rows_150)"
    using n by (auto simp: store_150_def hd_rows_150 entity_150_def)
  from rename_table_copies [OF h(1-4) wf_rows_150 uniform_rows_150 h(5)] obtain s' es post where
    run: "rename_table ''T'' ''T2'' store_150 = (Inr (), s')"
    and j: "journal s' = journal store_150 @ rename_script store_150 ''T'' ''T2'' es"
    and e: "map content es = map content rows_150"
    by blast
  have sn: "since store_150 s' = rename_script store_150 ''T'' ''T2'' es"
    using j by (rule since_append)
  have "length es = length rows_150" using e by (rule map_eq_imp_length_eq)
  with n h(2) show ?thesis
    by (simp add: run sn rename_script_facts)
qed

section \<open>The batched writer on rows of one partition\<close>

text \<open>
  The batches of \<^verbatim>\<open>write_df_to_azure_table_batch\<close> are the rows in runs of 100, whatever
  their keys.  The service accepts a batch of inserts when its entities have one
  \<^verbatim>\<open>PartitionKey\<close> and keys that differ from each other and from those in the table;
  for rows of one partition with different keys every commit of the loop is accepted.
\<close>

lemma commit_batch_success:
  assumes "outage s = None" "tables s t = Some pre" "svc_commit_batch t ops s = (Inr (), s')"
  shows "\<exists>post. apply_ops (clock s) ops pre = Inr post \<and> length ops \<le> 100
     \<and> single_partition ops \<and> outage s' = None \<and> tables s' = (tables s)(t \<mapsto> post)"
  using assms
  by (auto simp: svc_commit_batch_def perform_def split: if_splits sum.splits)

lemma apply_inserts:
  assumes "apply_ops c (map InsertOp es) pre = Inr post" "wf_table pre"
  shows "post = pre @ map (stamp c) es \<and> wf_table post"
  using assms
proof (induction es arbitrary: pre)
  case Nil
  then show ?case by simp
next
  case (Cons e es)
  from Cons.prems(1) obtain k where k: "key_of e = Some k" "Some k \<notin> set (map key_of pre)"
    and rest: "apply_ops c (map InsertOp es) (pre @ [stamp c e]) = Inr post"
    by (auto split: option.splits if_splits)
  have "wf_table (pre @ [stamp c e])"
    using Cons.prems(2) k by (simp add: wf_table_def)
  from Cons.IH [OF rest this] show ?case by auto
qed

lemma write_loop_state:
  assumes "outage s = None" "tables s t = Some pre" "wf_table pre"
    "write_loop t rows (map InsertOp pend) (length pend) s = (Inr (batch', cnt'), s')"
    "length pend < 100"
  shows "\<exists>es post pend'. map new_entity rows = map Inr es
     \<and> batch' = map InsertOp pend' \<and> cnt' = length pend' \<and> cnt' < 100
     \<and> outage s' = None \<and> tables s' = (tables s)(t \<mapsto> pre @ post) \<and> wf_table (pre @ post)
     \<and> map content post @ map content pend' = map content pend @ map content es"
  using assms
proof (induction rows arbitrary: s pre pend)
  case Nil
  have "(tables s)(t \<mapsto> pre) = tables s" using Nil.prems(2) by auto
  with Nil.prems show ?case
    by (intro exI [of _ "[]"] exI [of _ "[]"] exI [of _ pend]) (auto simp: return_def)
next
  case (Cons row rows)
  from Cons.prems(4) obtain e where e: "new_entity row = Inr e"
    by (cases "new_entity row") (auto simp: raise_def)
  show ?case
  proof (cases "length pend + 1 = 100")
    case False
    with Cons.prems(4) e
    have run: "write_loop t rows (map InsertOp (pend @ [e])) (length (pend @ [e])) s
        = (Inr (batch', cnt'), s')" by simp
    from False Cons.prems(5) have "length (pend @ [e]) < 100" by simp
    from Cons.IH [OF Cons.prems(1-3) run this] obtain es post pend' where
      "map new_entity rows = map Inr es" "batch' = map InsertOp pend'" "cnt' = length pend'"
      "cnt' < 100" "outage s' = None" "tables s' = (tables s)(t \<mapsto> pre @ post)"
      "wf_table (pre @ post)"
      "map content post @ map content pend' = map content (pend @ [e]) @ map content es"
      by blast
    with e show ?thesis
      by (intro exI [of _ "e # es"] exI [of _ post] exI [of _ pend']) simp
  next
    case True
    with Cons.prems(4) e
    have "and_then (svc_commit_batch t (map InsertOp (pend @ [e])))
        (\<lambda>_. write_loop t rows [] 0) s = (Inr (batch', cnt'), s')" by simp
    then obtain s1 where c: "svc_commit_batch t (map InsertOp (pend @ [e])) s = (Inr (), s1)"
      and run: "write_loop t rows (map InsertOp []) (length ([] :: entity list)) s1
        = (Inr (batch', cnt'), s')"
      by (cases rule: and_then_cases) auto
    from commit_batch_success [OF Cons.prems(1,2) c] obtain mid where
      mid: "apply_ops (clock s) (map InsertOp (pend @ [e])) pre = Inr mid"
      and s1: "outage s1 = None" "tables s1 = (tables s)(t \<mapsto> mid)" by blast
    from apply_inserts [OF mid Cons.prems(3)]
    have m: "mid = pre @ map (stamp (clock s)) (pend @ [e])" "wf_table mid" by blast+
    have t1: "tables s1 t = Some mid" using s1 by simp
    have "length ([] :: entity list) < 100" by simp
    from Cons.IH [OF s1(1) t1 m(2) run this] obtain es post pend' where
      "map new_entity rows = map Inr es" "batch' = map InsertOp pend'" "cnt' = length pend'"
      "cnt' < 100" "outage s' = None" "tables s' = (tables s1)(t \<mapsto> mid @ post)"
      "wf_table (mid @ post)"
      "map content post @ map content pend' = map content [] @ map content es"
      by blast
    with e s1 m(1) show ?thesis
      by (intro exI [of _ "e # es"] exI [of _ "map (stamp (clock s)) (pend @ [e]) @ post"]
          exI [of _ pend']) (simp add: comp_def)
  qed
qed

lemma write_phase_state:
  assumes up: "outage s = None" and tab: "tables s t = Some pre" and wf: "wf_table pre"
    and run: "write_phase t rows s = (Inr (), s')"
  shows "\<exists>es post. map new_entity rows = map Inr es \<and> outage s' = None
     \<and> tables s' = (tables s)(t \<mapsto> pre @ post) \<and> wf_table (pre @ post)
     \<and> map content post = map content es"
  using run unfolding write_phase_def
proof (cases rule: and_then_cases)
  case (fail e)
  then show ?thesis by simp
next
  case (ok x s1)
  obtain batch' cnt' where x: "x = (batch', cnt')" by (cases x)
  have loop: "write_loop t rows (map InsertOp []) (length ([] :: entity list)) s
      = (Inr (batch', cnt'), s1)" using ok(1) x by simp
  have "length ([] :: entity list) < 100" by simp
  from write_loop_state [OF up tab wf loop this] obtain es post pend' where
    es: "map new_entity rows = map Inr es" and b: "batch' = map InsertOp pend'"
      "cnt' = length pend'"
    and s1: "outage s1 = None" "tables s1 = (tables s)(t \<mapsto> pre @ post)" "wf_table (pre @ post)"
    and c: "map content post @ map content pend' = map content [] @ map content es"
    by blast
  show ?thesis
  proof (cases "cnt' > 0")
    case False
    with ok(2) x b c es s1 show ?thesis
      by (intro exI [of _ es] exI [of _ post]) (simp add: return_def)
  next
    case True
    with ok(2) x b have cm: "svc_commit_batch t (map InsertOp pend') s1 = (Inr (), s')" by simp
    have t1: "tables s1 t = Some (pre @ post)" using s1 by simp
    from commit_batch_success [OF s1(1) t1 cm] obtain fin where
      fin: "apply_ops (clock s1) (map InsertOp pend') (pre @ post) = Inr fin"
      and s': "outage s' = None" "tables s' = (tables s1)(t \<mapsto> fin)" by blast
    from apply_inserts [OF fin s1(3)]
    have f: "fin = pre @ post @ map (stamp (clock s1)) pend'" "wf_table fin" by auto
    have "map content (post @ map (stamp (clock s1)) pend') = map content es"
      using c by (simp add: comp_def)
    with es s' s1(2) f show ?thesis
      by (intro exI [of _ es] exI [of _ "post @ map (stamp (clock s1)) pend'"]) simp
  qed
qed

lemma apply_inserts_ok:
  assumes "distinct (map key_of xs)" "\<forall>e\<in>set xs. key_of e \<noteq> None"
    "set (map key_of xs) \<inter> set (map key_of cur) = {}"
  shows "apply_ops c (map InsertOp xs) cur = Inr (cur @ map (stamp c) xs)"
  using assms
proof (induction xs arbitrary: cur)
  case Nil
  then show ?case by simp
next
  case (Cons x xs)
  from Cons.prems obtain k where k: "key_of x = Some k" "Some k \<notin> set (map key_of cur)"
    by auto
  have "set (map key_of xs) \<inter> set (map key_of (cur @ [stamp c x])) = {}"
    using Cons.prems by auto
  with Cons.IH [of "cur @ [stamp c x]"] Cons.prems(1,2)
  have "apply_ops c (map InsertOp xs) (cur @ [stamp c x]) = Inr ((cur @ [stamp c x]) @ map (stamp c) xs)"
    by simp
  with k show ?case by simp
qed

lemma single_partition_inserts:
  "\<forall>e\<in>set xs. map_of e ''PartitionKey'' = Some p \<Longrightarrow> single_partition (map InsertOp xs)"
  unfolding single_partition_def
  by (rule remdups_all_same [where a = "Some p"]) auto

lemma commit_inserts_ok:
  assumes "outage s = None" "tables s t = Some cur" "length xs \<le> 100"
    "\<forall>e\<in>set xs. map_of e ''PartitionKey'' = Some p"
    "distinct (map key_of xs)" "\<forall>e\<in>set xs. key_of e \<noteq> None"
    "set (map key_of xs) \<inter> set (map key_of cur) = {}"
  shows "\<exists>s'. svc_commit_batch t (map InsertOp xs) s = (Inr (), s') \<and> outage s' = None
     \<and> journal s' = journal s @ [CommitBatch t (map InsertOp xs)]
     \<and> tables s' = (tables s)(t \<mapsto> cur @ map (stamp (clock s)) xs)"
proof -
  have a: "apply_ops (clock s) (map InsertOp xs) cur = Inr (cur @ map (stamp (clock s)) xs)"
    using assms(5-7) by (rule apply_inserts_ok)
  have l: "length (map InsertOp xs) \<le> 100" using assms(3) by simp
  from commit_batch_ok [OF assms(1,2) l single_partition_inserts [OF assms(4)] a]
    tables_perform_commit [OF assms(2) a] assms(1)
  show ?thesis by simp
qed

lemma write_loop_exact:
  assumes "outage s = None" "tables s t = Some cur"
    "map new_entity rows = map Inr es"
    "\<forall>e\<in>set (pend @ es). map_of e ''PartitionKey'' = Some p"
    "\<forall>e\<in>set (pend @ es). key_of e \<noteq> None"
    "distinct (map key_of (pend @ es))"
    "set (map key_of (pend @ es)) \<inter> set (map key_of cur) = {}"
    "length pend < 100"
  shows "\<exists>s' bs pend' cur'.
       write_loop t rows (map InsertOp pend) (length pend) s
         = (Inr (map InsertOp pend', length pend'), s')
     \<and> length pend' < 100 \<and> outage s' = None
     \<and> journal s' = journal s @ map (CommitBatch t) (map (map InsertOp) bs)
     \<and> (\<forall>b\<in>set bs. length b = 100)
     \<and> concat bs @ pend' = pend @ es
     \<and> tables s' t = Some cur' \<and> map key_of cur' = map key_of cur @ map key_of (concat bs)"
  using assms
proof (induction rows arbitrary: s cur es pend)
  case Nil
  then show ?case
    by (intro exI [of _ s] exI [of _ "[]"] exI [of _ pend] exI [of _ cur]) (simp add: return_def)
next
  case (Cons row rows)
  from Cons.prems(3) obtain e es' where es: "es = e # es'" "new_entity row = Inr e"
    "map new_entity rows = map Inr es'" by (cases es) auto
  show ?case
  proof (cases "length pend + 1 = 100")
    case False
    have step: "write_loop t (row # rows) (map InsertOp pend) (length pend) s
        = write_loop t rows (map InsertOp (pend @ [e])) (length (pend @ [e])) s"
      using es False by simp
    have l: "length (pend @ [e]) < 100" using False Cons.prems(8) by simp
    have eq: "(pend @ [e]) @ es' = pend @ es" using es by simp
    from Cons.IH [OF Cons.prems(1,2) es(3), of "pend @ [e]"] Cons.prems(4-7) l
    obtain s' bs pend' cur' where
      "write_loop t rows (map InsertOp (pend @ [e])) (length (pend @ [e])) s
         = (Inr (map InsertOp pend', length pend'), s')"
      "length pend' < 100" "outage s' = None"
      "journal s' = journal s @ map (CommitBatch t) (map (map InsertOp) bs)"
      "\<forall>b\<in>set bs. length b = 100" "concat bs @ pend' = (pend @ [e]) @ es'"
      "tables s' t = Some cur'" "map key_of cur' = map key_of cur @ map key_of (concat bs)"
      unfolding eq by blast
    then show ?thesis
      unfolding step eq
      by (intro exI [of _ s'] exI [of _ bs] exI [of _ pend'] exI [of _ cur']) simp
  next
    case True
    let ?b = "pend @ [e]"
    have sub: "set ?b \<subseteq> set (pend @ es)" using es by auto
    have c1: "length ?b \<le> 100" using True by simp
    have c2: "\<forall>x\<in>set ?b. map_of x ''PartitionKey'' = Some p" using Cons.prems(4) sub by blast
    have c3: "distinct (map key_of ?b)" using Cons.prems(6) es by simp
    have c4: "\<forall>x\<in>set ?b. key_of x \<noteq> None" using Cons.prems(5) sub by blast
    have c5: "set (map key_of ?b) \<inter> set (map key_of cur) = {}" using Cons.prems(7) es by auto
    from commit_inserts_ok [OF Cons.prems(1,2) c1 c2 c3 c4 c5] obtain s1 where
      s1: "svc_commit_batch t (map InsertOp ?b) s = (Inr (), s1)" "outage s1 = None"
        "journal s1 = journal s @ [CommitBatch t (map InsertOp ?b)]"
        "tables s1 = (tables s)(t \<mapsto> cur @ map (stamp (clock s)) ?b)" by blast
    let ?cur1 = "cur @ map (stamp (clock s)) ?b"
    have t1: "tables s1 t = Some ?cur1" using s1(4) by simp
    have k1: "map key_of ?cur1 = map key_of cur @ map key_of ?b" by (simp add: comp_def)
    have step: "write_loop t (row # rows) (map InsertOp pend) (length pend) s
        = write_loop t rows (map InsertOp []) (length ([] :: entity list)) s1"
      using es True
      by (simp add: and_then_Inr [of "svc_commit_batch t (map InsertOp pend @ [InsertOp e])"
            _ _ s1] s1(1) [simplified])
    have d4: "\<forall>x\<in>set ([] @ es'). map_of x ''PartitionKey'' = Some p"
      using Cons.prems(4) es by simp
    have d5: "\<forall>x\<in>set ([] @ es'). key_of x \<noteq> None" using Cons.prems(5) es by simp
    have d6: "distinct (map key_of ([] @ es'))" using Cons.prems(6) es by simp
    have d7: "set (map key_of ([] @ es')) \<inter> set (map key_of ?cur1) = {}"
      using Cons.prems(6,7) es unfolding k1 by auto
    have d8: "length ([] :: entity list) < 100" by simp
    from Cons.IH [OF s1(2) t1 es(3) d4 d5 d6 d7 d8] obtain s' bs pend' cur' where
      r: "write_loop t rows (map InsertOp []) (length ([] :: entity list)) s1
         = (Inr (map InsertOp pend', length pend'), s')"
      "length pend' < 100" "outage s' = None"
      "journal s' = journal s1 @ map (CommitBatch t) (map (map InsertOp) bs)"
      "\<forall>b\<in>set bs. length b = 100" "concat bs @ pend' = [] @ es'"
      "tables s' t = Some cur'" "map key_of cur' = map key_of ?cur1 @ map key_of (concat bs)"
      by blast
    have len: "length ?b = 100" using True by simp
    show ?thesis
      unfolding step
      using r s1(3) es(1) len k1
      by (intro exI [of _ s'] exI [of _ "?b # bs"] exI [of _ pend'] exI [of _ cur']) simp
  qed
qed

lemma map_map_of_key_of:
  assumes "map map_of es = map map_of rows"
  shows "map key_of es = map key_of rows"
proof -
  define K where "K = (\<lambda>m :: string \<rightharpoonup> val. case m ''PartitionKey'' of
        None \<Rightarrow> None
      | Some pk \<Rightarrow> (case m ''RowKey'' of None \<Rightarrow> None | Some rk \<Rightarrow> Some (pk, rk)))"
  have k: "key_of = K \<circ> map_of" by (rule ext) (simp add: key_of_def K_def)
  have "map key_of es = map K (map map_of es)" unfolding k by (simp only: map_map)
  also have "\<dots> = map K (map map_of rows)" by (simp only: assms)
  also have "\<dots> = map key_of rows" unfolding k by (simp only: map_map)
  finally show ?thesis .
qed

lemma map_map_of_content:
  assumes "map map_of es = map map_of rows"
  shows "map content es = map content rows"
proof -
  define C where "C = (\<lambda>m :: string \<rightharpoonup> val. m(''Timestamp'' := None))"
  have k: "content = C \<circ> map_of" by (rule ext) (simp add: content_def C_def)
  have "map content es = map C (map map_of es)" unfolding k by (simp only: map_map)
  also have "\<dots> = map C (map map_of rows)" by (simp only: assms)
  also have "\<dots> = map content rows" unfolding k by (simp only: map_map)
  finally show ?thesis .
qed

lemma map_map_of_partition:
  assumes "map map_of es = map map_of rows" "\<forall>row\<in>set rows. map_of row k = Some p"
  shows "\<forall>e\<in>set es. map_of e k = Some p"
proof -
  have "\<forall>m\<in>set (map map_of rows). m k = Some p" using assms(2) by simp
  then have "\<forall>m\<in>set (map map_of es). m k = Some p" using assms(1) by simp
  then show ?thesis by simp
qed

lemma rows_entities:
  assumes "\<forall>row\<in>set rows. distinct (map fst row) \<and> key_of row \<noteq> None"
  shows "\<exists>es. map new_entity rows = map Inr es \<and> map map_of es = map map_of rows"
  using assms
proof (induction rows)
  case Nil
  then show ?case by simp
next
  case (Cons row rows)
  then obtain es where es: "map new_entity rows = map Inr es" "map map_of es = map map_of rows"
    by auto
  from Cons.prems obtain pk rk where pk: "map_of row ''PartitionKey'' = Some pk"
    and rk: "map_of row ''RowKey'' = Some rk" and d: "distinct (map fst row)"
    by (auto simp: key_of_def split: option.splits)
  from new_entity_map_of [OF d pk rk] obtain e where
    "new_entity row = Inr e" "map_of e = map_of row" by blast
  with es show ?case by (intro exI [of _ "e # es"]) simp
qed

lemma fst_records: "row \<in> set (to_dict_records df) \<Longrightarrow> map fst row = map fst (series df)"
  by (auto simp: to_dict_records_def comp_def split_def)

lemma write_phase_exact:
  assumes up: "outage s = None" and tab: "tables s t = Some cur"
    and es: "map new_entity rows = map Inr es"
    and part: "\<forall>e\<in>set es. map_of e ''PartitionKey'' = Some p"
    and keys: "\<forall>e\<in>set es. key_of e \<noteq> None" "distinct (map key_of es)"
    and fresh: "set (map key_of es) \<inter> set (map key_of cur) = {}"
  shows "\<exists>s' bs. write_phase t rows s = (Inr (), s') \<and> outage s' = None
     \<and> journal s' = journal s @ map (CommitBatch t) (map (map InsertOp) bs)
     \<and> concat bs = es
     \<and> (\<forall>b\<in>set bs. b \<noteq> [] \<and> length b \<le> 100)
     \<and> (\<forall>b\<in>set (butlast bs). length b = 100)"
proof -
  have e4: "\<forall>e\<in>set ([] @ es). map_of e ''PartitionKey'' = Some p" using part by simp
  have e5: "\<forall>e\<in>set ([] @ es). key_of e \<noteq> None" using keys by simp
  have e6: "distinct (map key_of ([] @ es))" using keys by simp
  have e7: "set (map key_of ([] @ es)) \<inter> set (map key_of cur) = {}" using fresh by simp
  have e8: "length ([] :: entity list) < 100" by simp
  from write_loop_exact [OF up tab es e4 e5 e6 e7 e8] obtain s1 bs pend' cur' where
    loop: "write_loop t rows [] 0 s = (Inr (map InsertOp pend', length pend'), s1)"
    and l: "length pend' < 100" and up1: "outage s1 = None"
    and j1: "journal s1 = journal s @ map (CommitBatch t) (map (map InsertOp) bs)"
    and full: "\<forall>b\<in>set bs. length b = 100" and cat: "concat bs @ pend' = es"
    and t1: "tables s1 t = Some cur'"
    and k1: "map key_of cur' = map key_of cur @ map key_of (concat bs)"
    by auto
  have run: "write_phase t rows s
      = (if length pend' > 0 then svc_commit_batch t (map InsertOp pend') else return ()) s1"
    by (simp add: write_phase_def and_then_Inr [of "write_loop t rows [] 0", OF loop])
  show ?thesis
  proof (cases "pend' = []")
    case True
    with run have "write_phase t rows s = (Inr (), s1)" by (simp add: return_def)
    moreover have "\<forall>b\<in>set (butlast bs). length b = 100"
      using full by (auto dest: in_set_butlastD)
    moreover have "\<forall>b\<in>set bs. b \<noteq> [] \<and> length b \<le> 100" using full by auto
    ultimately show ?thesis
      using up1 j1 cat True by (intro exI [of _ s1] exI [of _ bs]) simp
  next
    case False
    have sub: "set pend' \<subseteq> set es" using cat by auto
    have c1: "length pend' \<le> 100" using l by simp
    have c2: "\<forall>x\<in>set pend'. map_of x ''PartitionKey'' = Some p" using part sub by blast
    have d: "distinct (map key_of (concat bs) @ map key_of pend')"
      using keys(2) cat by (metis map_append)
    have c3: "distinct (map key_of pend')" using d by simp
    have c4: "\<forall>x\<in>set pend'. key_of x \<noteq> None" using keys(1) sub by blast
    have i1: "set (map key_of pend') \<inter> set (map key_of cur) = {}"
      using fresh sub by auto
    have i2: "set (map key_of pend') \<inter> set (map key_of (concat bs)) = {}"
      using d unfolding distinct_append by blast
    have "set (map key_of cur') = set (map key_of cur) \<union> set (map key_of (concat bs))"
      by (simp only: k1 set_append)
    with i1 i2 have c5: "set (map key_of pend') \<inter> set (map key_of cur') = {}"
      by blast
    from commit_inserts_ok [OF up1 t1 c1 c2 c3 c4 c5] obtain s' where
      s': "svc_commit_batch t (map InsertOp pend') s1 = (Inr (), s')" "outage s' = None"
        "journal s' = journal s1 @ [CommitBatch t (map InsertOp pend')]" by blast
    from run False s'(1) have "write_phase t rows s = (Inr (), s')" by simp
    moreover have "\<forall>b\<in>set (bs @ [pend']). b \<noteq> [] \<and> length b \<le> 100"
      using full False c1 by auto
    moreover have "\<forall>b\<in>set (butlast (bs @ [pend'])). length b = 100" using full by simp
    ultimately show ?thesis
      using s'(2,3) j1 cat by (intro exI [of _ s'] exI [of _ "bs @ [pend']"]) simp
  qed
qed

lemma write_batch_prelude:
  assumes up: "outage s = None"
    and wf: "case tables s t of None \<Rightarrow> True | Some rows \<Rightarrow> wf_table rows"
  shows "\<exists>sb pre. outage sb = None
     \<and> tables sb = (tables s)(t \<mapsto> (if tr then []
                        else (case tables s t of None \<Rightarrow> [] | Some rows \<Rightarrow> rows)))
     \<and> journal sb = journal s @ pre \<and> inserted pre = []
     \<and> (\<forall>b\<in>set (batches pre). length b \<le> 100)
     \<and> write_df_to_azure_table_batch t df tr s = write_phase t (to_dict_records df) sb"
proof -
  define sa where "sa = (if t \<in> dom (tables s) then s else perform (CreateTable t) s)"
  define old where "old = (case tables s t of None \<Rightarrow> [] | Some rows \<Rightarrow> rows)"
  define e0 where "e0 = (if t \<in> dom (tables s) then [] else [CreateTable t])"
  have sa: "outage sa = None" "tables sa t = Some old" "wf_table old"
    "tables sa = (tables s)(t \<mapsto> old)" "journal sa = journal s @ e0"
  proof -
    show "outage sa = None" using up by (simp add: sa_def)
    show "tables sa = (tables s)(t \<mapsto> old)"
      by (cases "tables s t") (auto simp: sa_def old_def tables_perform)
    then show "tables sa t = Some old" by simp
    show "wf_table old" using wf by (cases "tables s t") (simp_all add: old_def wf_table_def)
    show "journal sa = journal s @ e0" by (simp add: sa_def e0_def)
  qed
  have ex: "svc_exists t s = (Inr (t \<in> dom (tables s)), s)" using up by (rule svc_exists_up)
  have pre: "and_then (table_exists t) (\<lambda>ex. if \<not> ex then create_table t else return ()) s
      = (Inr (), sa)"
    using up by (simp add: table_exists_def and_then_Inr [of "svc_exists t", OF ex]
        create_table_up sa_def return_def)
  have shape: "write_df_to_azure_table_batch t df tr
      = and_then (and_then (table_exists t) (\<lambda>ex. if \<not> ex then create_table t else return ()))
          (\<lambda>_. and_then (if tr then delete_all_rows_batch t else return ())
                  (\<lambda>_. write_phase t (to_dict_records df)))"
    by (simp add: write_df_to_azure_table_batch_def write_phase_def and_then_assoc)
  have e0: "inserted e0 = []" "batches e0 = []" by (simp_all add: e0_def)
  show ?thesis
  proof (cases tr)
    case False
    have "write_df_to_azure_table_batch t df tr s = write_phase t (to_dict_records df) sa"
      unfolding shape using False
      by (simp add: and_then_Inr [of "and_then (table_exists t)
            (\<lambda>ex. if \<not> ex then create_table t else return ())", OF pre])
    with sa e0 False show ?thesis
      by (intro exI [of _ sa] exI [of _ e0]) (simp add: old_def)
  next
    case True
    from delete_all_rows_batch_ok [OF sa(1-3)] obtain sb where
      sb: "delete_all_rows_batch t sa = (Inr (), sb)" "outage sb = None"
        "tables sb = (tables sa)(t \<mapsto> [])" by blast
    from delete_all_rows_batch_journal [OF sb(1) refl] obtain bs where
      bs: "journal sb = journal sa @ map (CommitBatch t) bs"
        "\<forall>b\<in>set bs. length b \<le> 100 \<and> single_partition b"
        "prefix (map Inr (concat bs))
           (map delete_op (case tables sa t of None \<Rightarrow> [] | Some rs \<Rightarrow> rs))"
      by blast
    have ins: "inserted (map (CommitBatch t) bs) = []"
      using bs(3) by (intro inserted_commits) (rule prefix_delete_ops)
    have "write_df_to_azure_table_batch t df tr s = write_phase t (to_dict_records df) sb"
      unfolding shape using True
      by (simp add: and_then_Inr [of "and_then (table_exists t)
            (\<lambda>ex. if \<not> ex then create_table t else return ())", OF pre]
          and_then_Inr [of "delete_all_rows_batch t", OF sb(1)])
    with sb sa(4,5) bs(1,2) e0 ins True show ?thesis
      by (intro exI [of _ sb] exI [of _ "e0 @ map (CommitBatch t) bs"]) simp
  qed
qed

lemma inserted_insert_batches:
  "inserted (map (CommitBatch t) (map (map InsertOp) bs)) = concat bs"
proof (induction bs)
  case Nil
  then show ?case by simp
next
  case (Cons b bs)
  have "concat (map (\<lambda>x. case x of InsertOp e \<Rightarrow> [e] | DeleteOp pk rk \<Rightarrow> []) (map InsertOp b)) = b"
    by (induction b) simp_all
  with Cons.IH show ?case by (simp add: inserted_def)
qed

lemma write_batch_ok:
  assumes up: "outage s = None"
    and wf: "case tables s t of None \<Rightarrow> True | Some old \<Rightarrow> wf_table old"
    and fresh: "tr \<or> (case tables s t of None \<Rightarrow> True
        | Some old \<Rightarrow> set (map key_of old) \<inter> set (map key_of (to_dict_records df)) = {})"
    and cols: "distinct (map fst (series df))"
    and part: "\<forall>row\<in>set (to_dict_records df).
        map_of row ''PartitionKey'' = Some p \<and> map_of row ''RowKey'' \<noteq> None"
    and keys: "distinct (map key_of (to_dict_records df))"
  shows "\<exists>s' pre bs post. write_df_to_azure_table_batch t df tr s = (Inr (), s')
     \<and> outage s' = None
     \<and> since s s' = pre @ map (CommitBatch t) (map (map InsertOp) bs)
     \<and> inserted pre = [] \<and> (\<forall>b\<in>set (batches pre). length b \<le> 100)
     \<and> map map_of (concat bs) = map map_of (to_dict_records df)
     \<and> (\<forall>b\<in>set bs. b \<noteq> [] \<and> length b \<le> 100) \<and> (\<forall>b\<in>set (butlast bs). length b = 100)
     \<and> tables s' = (tables s)(t \<mapsto> (if tr then []
            else (case tables s t of None \<Rightarrow> [] | Some old \<Rightarrow> old)) @ post)
     \<and> wf_table post
     \<and> map content post = map content (to_dict_records df)"
proof -
  let ?rows = "to_dict_records df"
  define cur where "cur = (if tr then [] else (case tables s t of None \<Rightarrow> [] | Some old \<Rightarrow> old))"
  have rk: "\<forall>row\<in>set ?rows. distinct (map fst row) \<and> key_of row \<noteq> None"
    using part cols by (auto simp: fst_records key_of_def)
  from rows_entities [OF rk] obtain es where
    es: "map new_entity ?rows = map Inr es" and mm: "map map_of es = map map_of ?rows" by blast
  have ek: "map key_of es = map key_of ?rows" using mm by (rule map_map_of_key_of)
  have ec: "map content es = map content ?rows" using mm by (rule map_map_of_content)
  have p1: "\<forall>row\<in>set ?rows. map_of row ''PartitionKey'' = Some p" using part by blast
  have e1: "\<forall>e\<in>set es. map_of e ''PartitionKey'' = Some p"
    using mm p1 by (rule map_map_of_partition)
  have "\<forall>k\<in>set (map key_of ?rows). k \<noteq> None" using rk by simp
  then have "\<forall>k\<in>set (map key_of es). k \<noteq> None" unfolding ek .
  then have e2: "\<forall>e\<in>set es. key_of e \<noteq> None" by simp
  have e3: "distinct (map key_of es)" using keys unfolding ek .
  have e4: "set (map key_of es) \<inter> set (map key_of cur) = {}"
    unfolding ek using fresh by (auto simp: cur_def split: option.splits)
  have wfc: "wf_table cur"
    using wf by (auto simp: cur_def wf_table_def split: option.splits)
  from write_batch_prelude [OF up wf, of tr df] obtain sb pre where
    sb: "outage sb = None" "tables sb = (tables s)(t \<mapsto> cur)" "journal sb = journal s @ pre"
      "inserted pre = []" "\<forall>b\<in>set (batches pre). length b \<le> 100"
      "write_df_to_azure_table_batch t df tr s = write_phase t ?rows sb"
    unfolding cur_def by blast
  have tb: "tables sb t = Some cur" using sb(2) by simp
  from write_phase_exact [OF sb(1) tb es e1 e2 e3 e4] obtain s' bs where
    run: "write_phase t ?rows sb = (Inr (), s')" and up': "outage s' = None"
    and j: "journal s' = journal sb @ map (CommitBatch t) (map (map InsertOp) bs)"
    and cat: "concat bs = es"
    and sz: "\<forall>b\<in>set bs. b \<noteq> [] \<and> length b \<le> 100" "\<forall>b\<in>set (butlast bs). length b = 100"
    by blast
  from write_phase_state [OF sb(1) tb wfc run] obtain es' post where
    es': "map new_entity ?rows = map Inr es'"
    and t': "tables s' = (tables sb)(t \<mapsto> cur @ post)" and wf': "wf_table (cur @ post)"
    and c': "map content post = map content es'" by blast
  have "map Inr es' = (map Inr es :: (error + entity) list)" using es es' by simp
  then have same: "es' = es" by (simp add: inj_map_eq_map)
  have sn: "since s s' = pre @ map (CommitBatch t) (map (map InsertOp) bs)"
    using j sb(3) by (intro since_append) simp
  have tabs: "tables s' = (tables s)(t \<mapsto> cur @ post)" using t' sb(2) by simp
  have wfp: "wf_table post" using wf' by (rule wf_table_suffix)
  show ?thesis
    using sb(6) run up' sn sb(4,5) cat mm sz tabs wfp c' same ec
    unfolding cur_def [symmetric]
    by (intro exI [of _ s'] exI [of _ pre] exI [of _ bs] exI [of _ post]) simp
qed

section \<open>Exactly the input, in batches of at most 100\<close>




section \<open>Writing twice with truncation\<close>




end
